theory Spec2Isabelle
  imports Complex_Main
begin

section \<open>hsbench: the statistics engine and the phase orchestrator\<close>

text \<open>
  A shallow embedding of \<^verbatim>\<open>hsbench.go\<close>. Go's \<^verbatim>\<open>int\<close>, \<^verbatim>\<open>int32\<close> and
  \<^verbatim>\<open>int64\<close> values are modelled as \<open>int\<close>: the quantities involved (nanosecond
  clock readings, byte and operation counters, worker counts) stay far from the 64-bit
  range and no property below depends on wrap-around. A run-time panic of Go is a value
  of type \<open>panic\<close>; a function that can panic returns \<open>panic + 'a\<close>.
\<close>

subsection \<open>Run-time panics\<close>

datatype panic = IndexOutOfRange | IntegerDivideByZero

definition bindP :: "panic + 'a \<Rightarrow> ('a \<Rightarrow> panic + 'b) \<Rightarrow> panic + 'b" where
  "bindP m f = (case m of Inl e \<Rightarrow> Inl e | Inr v \<Rightarrow> f v)"

text \<open>Indexing a slice, \<^verbatim>\<open>xs[i]\<close>: Go panics when the index is out of range.\<close>

definition index :: "'a list \<Rightarrow> int \<Rightarrow> panic + 'a" where
  "index xs i = (if 0 \<le> i \<and> i < int (length xs) then Inr (xs ! nat i) else Inl IndexOutOfRange)"

subsection \<open>Floating-point values\<close>

text \<open>
  A \<^verbatim>\<open>float64\<close> is modelled as an exact rational or one of the IEEE 754 special
  values. Rounding to 53 bits is not modelled. Division follows IEEE 754 where the
  divisor is zero: Go does not panic on a floating-point division by zero, it yields an
  infinity or NaN. The sign of a zero is not modelled: the only zero divisor of the
  program is \<^verbatim>\<open>seconds\<close>, the quotient of an integer zero and \<^verbatim>\<open>1000000000\<close>, a
  positive zero.
\<close>

datatype float64 = Fin rat | PosInf | NegInf | NaN

definition float64_of :: "int \<Rightarrow> float64" where
  "float64_of n = Fin (of_int n)"

fun fdiv :: "float64 \<Rightarrow> float64 \<Rightarrow> float64" where
  "fdiv NaN y = NaN"
| "fdiv x NaN = NaN"
| "fdiv (Fin x) (Fin y) =
     (if y \<noteq> 0 then Fin (x / y) else if x = 0 then NaN else if 0 < x then PosInf else NegInf)"
| "fdiv (Fin x) PosInf = Fin 0"
| "fdiv (Fin x) NegInf = Fin 0"
| "fdiv PosInf (Fin y) = (if 0 \<le> y then PosInf else NegInf)"
| "fdiv NegInf (Fin y) = (if 0 \<le> y then NegInf else PosInf)"
| "fdiv PosInf PosInf = NaN"
| "fdiv PosInf NegInf = NaN"
| "fdiv NegInf PosInf = NaN"
| "fdiv NegInf NegInf = NaN"

text \<open>
  \<^verbatim>\<open>int64(math.Round(x))\<close> on a finite \<open>x\<close>: round to nearest, halves away from
  zero.
\<close>

definition math_Round :: "rat \<Rightarrow> int" where
  "math_Round x = (if x < 0 then - \<lfloor>- x + 1 / 2\<rfloor> else \<lfloor>x + 1 / 2\<rfloor>)"

text \<open>
  \<^verbatim>\<open>bytefmt.MEGABYTE\<close> of the dependency \<^verbatim>\<open>code.cloudfoundry.org/bytefmt\<close>
  (pinned in \<^verbatim>\<open>go.mod\<close>). The library declares
  \<^verbatim>\<open>const ( BYTE = 1 << (10 * iota); KILOBYTE; MEGABYTE; ... )\<close>, so the constant is
  \<^verbatim>\<open>1 << 20\<close>.
\<close>

definition MEGABYTE :: int where
  "MEGABYTE = 1048576"

subsection \<open>IntervalStats and OutputStats\<close>

record IntervalStats =
  loop :: int
  name :: string
  mode :: string
  bytes :: int
  slowdowns :: int
  intervalNano :: int
  latNano :: "int list"

record OutputStats =
  Loop :: int
  IntervalName :: string
  Seconds :: float64
  Mode :: string
  Ops :: int
  Mbps :: float64
  Iops :: float64
  MinLat :: float64
  AvgLat :: float64
  Lat99 :: float64
  Lat95 :: float64
  Lat90 :: float64
  Lat75 :: float64
  Lat50 :: float64
  MaxLat :: float64
  Slowdowns :: int

text \<open>The zero value \<^verbatim>\<open>OutputStats{}\<close>.\<close>

definition OutputStats_zero :: OutputStats where
  "OutputStats_zero =
     \<lparr>Loop = 0, IntervalName = [], Seconds = Fin 0, Mode = [], Ops = 0, Mbps = Fin 0,
      Iops = Fin 0, MinLat = Fin 0, AvgLat = Fin 0, Lat99 = Fin 0, Lat95 = Fin 0,
      Lat90 = Fin 0, Lat75 = Fin 0, Lat50 = Fin 0, MaxLat = Fin 0, Slowdowns = 0\<rparr>"

text \<open>\<^verbatim>\<open>float64(x) / 1000000\<close>: nanoseconds to milliseconds.\<close>

definition millis :: "int \<Rightarrow> float64" where
  "millis x = fdiv (float64_of x) (Fin 1000000)"

text \<open>
  The index expression \<^verbatim>\<open>int64(math.Round(p*float64(ops)))-1\<close> of the percentile
  lines, with \<open>p\<close> the constant of the line (\<open>99/100\<close>, \<open>95/100\<close>, ...). The product
  is taken exactly; for the five constants of the program the rounded \<^verbatim>\<open>float64\<close>
  product rounds to the same integer for every sample count a run can hold.
\<close>

definition pctIndex :: "rat \<Rightarrow> int \<Rightarrow> int" where
  "pctIndex p ops = math_Round (p * of_int ops) - 1"

text \<open>One percentile line: \<^verbatim>\<open>LatNano := is.latNano[...]; Lat = float64(LatNano) / 1000000\<close>.\<close>

definition pctLat :: "int list \<Rightarrow> rat \<Rightarrow> panic + float64" where
  "pctLat xs p = bindP (index xs (pctIndex p (int (length xs)))) (\<lambda>v. Inr (millis v))"

definition IntervalStats_makeOutputStats :: "IntervalStats \<Rightarrow> panic + OutputStats" where
  "IntervalStats_makeOutputStats ist =
    (let ops = int (length (latNano ist));
         seconds = fdiv (float64_of (intervalNano ist)) (Fin 1000000000);
         mbps = fdiv (fdiv (float64_of (bytes ist)) seconds) (float64_of MEGABYTE);
         iops = fdiv (float64_of ops) seconds;
         out = (\<lambda>minLat avgLat l99 l95 l90 l75 l50 maxLat.
           \<lparr>Loop = loop ist, IntervalName = name ist, Seconds = seconds, Mode = mode ist,
            Ops = ops, Mbps = mbps, Iops = iops, MinLat = minLat, AvgLat = avgLat,
            Lat99 = l99, Lat95 = l95, Lat90 = l90, Lat75 = l75, Lat50 = l50,
            MaxLat = maxLat, Slowdowns = slowdowns ist\<rparr>)
     in if ops > 0 then
          bindP (index (latNano ist) 0) (\<lambda>minNano.
          bindP (index (latNano ist) (ops - 1)) (\<lambda>maxNano.
          let totalLat = sum_list (latNano ist);
              avgLat = fdiv (fdiv (float64_of totalLat) (float64_of ops)) (Fin 1000000)
          in
          bindP (pctLat (latNano ist) (99 / 100)) (\<lambda>l99.
          bindP (pctLat (latNano ist) (95 / 100)) (\<lambda>l95.
          bindP (pctLat (latNano ist) (9 / 10)) (\<lambda>l90.
          bindP (pctLat (latNano ist) (75 / 100)) (\<lambda>l75.
          bindP (pctLat (latNano ist) (5 / 10)) (\<lambda>l50.
          Inr (out (millis minNano) avgLat l99 l95 l90 l75 l50 (millis maxNano)))))))))
        else Inr (out (Fin 0) (Fin 0) (Fin 0) (Fin 0) (Fin 0) (Fin 0) (Fin 0) (Fin 0)))"

subsection \<open>Loops and non-termination\<close>

text \<open>
  A counted \<^verbatim>\<open>for\<close> loop whose body may panic runs the body on each index in turn
  and stops at the first panic. A computation that may also run forever returns an
  \<open>option\<close>: \<open>None\<close> means that it does not return.
\<close>

primrec forEach :: "'i list \<Rightarrow> ('i \<Rightarrow> 'a \<Rightarrow> panic + 'a) \<Rightarrow> 'a \<Rightarrow> panic + 'a" where
  "forEach [] body acc = Inr acc"
| "forEach (t # ts) body acc = bindP (body t acc) (forEach ts body)"

definition bindD :: "(panic + 'a) option \<Rightarrow> ('a \<Rightarrow> (panic + 'b) option) \<Rightarrow> (panic + 'b) option" where
  "bindD m f = (case m of None \<Rightarrow> None | Some (Inl e) \<Rightarrow> Some (Inl e) | Some (Inr v) \<Rightarrow> f v)"

primrec forEachD :: "'i list \<Rightarrow> ('i \<Rightarrow> 'a \<Rightarrow> (panic + 'a) option) \<Rightarrow> 'a \<Rightarrow> (panic + 'a) option" where
  "forEachD [] body acc = Some (Inr acc)"
| "forEachD (t # ts) body acc = bindD (body t acc) (forEachD ts body)"

subsection \<open>Decimal formatting\<close>

text \<open>\<^verbatim>\<open>strconv.FormatInt(i, 10)\<close>.\<close>

fun digitsOf :: "nat \<Rightarrow> string" where
  "digitsOf n =
     (if n < 10 then [''0123456789'' ! n]
      else digitsOf (n div 10) @ [''0123456789'' ! (n mod 10)])"

definition FormatInt :: "int \<Rightarrow> string" where
  "FormatInt i = (if i < 0 then CHR ''-'' # digitsOf (nat (- i)) else digitsOf (nat i))"

subsection \<open>ThreadStats: the ledger of one worker\<close>

record ThreadStats =
  start :: int
  curInterval :: int
  intervals :: "IntervalStats list"

definition makeThreadStats :: "int \<Rightarrow> int \<Rightarrow> string \<Rightarrow> int \<Rightarrow> ThreadStats" where
  "makeThreadStats s lp md w =
     \<lparr>start = s, curInterval = 0,
      intervals = [] @ [\<lparr>loop = lp, name = ''0'', mode = md, bytes = 0, slowdowns = 0,
                        intervalNano = w, latNano = []\<rparr>]\<rparr>"

text \<open>
  The \<^verbatim>\<open>for\<close> loop of \<^verbatim>\<open>ThreadStats.updateIntervals\<close>. The clock reading
  \<open>now\<close> stands for \<^verbatim>\<open>time.Now().UnixNano()\<close>; one reading is used for all
  iterations of one call. The loop need not terminate, so it is a partial function.
\<close>

partial_function (option) updateIntervals_loop ::
    "int \<Rightarrow> string \<Rightarrow> int \<Rightarrow> int \<Rightarrow> ThreadStats \<Rightarrow> ThreadStats option" where
  "updateIntervals_loop lp md w now ts =
     (if start ts + w * (curInterval ts + 1) < now
      then updateIntervals_loop lp md w now
             (ts\<lparr>curInterval := curInterval ts + 1,
                 intervals := intervals ts @
                   [\<lparr>loop = lp, name = FormatInt (curInterval ts + 1), mode = md, bytes = 0,
                     slowdowns = 0, intervalNano = w, latNano = []\<rparr>]\<rparr>)
      else Some ts)"

text \<open>The result is the updated ledger and the returned interval index.\<close>

definition ThreadStats_updateIntervals ::
    "int \<Rightarrow> string \<Rightarrow> int \<Rightarrow> int \<Rightarrow> ThreadStats \<Rightarrow> (ThreadStats \<times> int) option" where
  "ThreadStats_updateIntervals lp md w now ts =
     (if w < 0 then Some (ts, curInterval ts)
      else map_option (\<lambda>ts'. (ts', curInterval ts')) (updateIntervals_loop lp md w now ts))"

definition ThreadStats_finish :: "ThreadStats \<Rightarrow> ThreadStats" where
  "ThreadStats_finish ts = ts\<lparr>curInterval := - 1\<rparr>"

subsection \<open>Stats: the statistics of one phase\<close>

text \<open>
  The \<^verbatim>\<open>sync.Map\<close> of completion counters is a map from interval index to count.
  The fields \<^verbatim>\<open>loop\<close>, \<^verbatim>\<open>mode\<close> and \<^verbatim>\<open>intervalNano\<close> carry the prefix
  \<open>stats_\<close> to keep them apart from those of \<open>IntervalStats\<close>.
\<close>

record Stats =
  threads :: int
  stats_loop :: int
  stats_mode :: string
  startNano :: int
  endNano :: int
  stats_intervalNano :: int
  threadStats :: "ThreadStats list"
  intervalCompletions :: "int \<rightharpoonup> int"
  completions :: int

text \<open>
  The record \<^verbatim>\<open>is\<close> that \<^verbatim>\<open>Stats.makeOutputStats(i)\<close> builds once the checks have
  passed: the first loop adds up the counters of every worker's interval \<open>i\<close>, the second
  copies the workers' samples one after the other into a slice of \<^verbatim>\<open>ops\<close> elements,
  which they fill exactly, and the slice is sorted ascending.
\<close>

definition Stats_intervalRecord :: "Stats \<Rightarrow> int \<Rightarrow> panic + IntervalStats" where
  "Stats_intervalRecord stats i =
     bindP (forEach [0..threads stats - 1]
              (\<lambda>t (b, ops, sl).
                 bindP (index (threadStats stats) t) (\<lambda>ts.
                 bindP (index (intervals ts) i) (\<lambda>iv.
                 Inr (b + bytes iv, ops + int (length (latNano iv)), sl + slowdowns iv))))
              (0, 0, 0)) (\<lambda>(b, ops, sl).
     bindP (forEach [0..threads stats - 1]
              (\<lambda>t tmpLat.
                 bindP (index (threadStats stats) t) (\<lambda>ts.
                 bindP (index (intervals ts) i) (\<lambda>iv.
                 Inr (tmpLat @ latNano iv))))
              []) (\<lambda>tmpLat.
     Inr \<lparr>loop = stats_loop stats, name = FormatInt i, mode = stats_mode stats, bytes = b,
          slowdowns = sl, intervalNano = stats_intervalNano stats, latNano = sort tmpLat\<rparr>))"

text \<open>
  \<^verbatim>\<open>Stats.makeOutputStats(i)\<close> returns a record and a flag; the record is the zero
  value when the flag is false.
\<close>

definition Stats_makeOutputStats :: "Stats \<Rightarrow> int \<Rightarrow> panic + (OutputStats \<times> bool)" where
  "Stats_makeOutputStats stats i =
     (if stats_intervalNano stats < 0 \<or> i < 0 then Inr (OutputStats_zero, False)
      else case intervalCompletions stats i of
             None \<Rightarrow> Inr (OutputStats_zero, False)
           | Some count \<Rightarrow>
               if count < threads stats then Inr (OutputStats_zero, False)
               else bindP (Stats_intervalRecord stats i) (\<lambda>ist.
                    bindP (IntervalStats_makeOutputStats ist) (\<lambda>os. Inr (os, True))))"

text \<open>The record \<^verbatim>\<open>is\<close> of \<^verbatim>\<open>Stats.makeTotalStats\<close>, over every interval of every worker.\<close>

definition Stats_totalRecord :: "Stats \<Rightarrow> panic + IntervalStats" where
  "Stats_totalRecord stats =
     bindP (forEach [0..threads stats - 1]
              (\<lambda>t acc.
                 bindP (index (threadStats stats) t) (\<lambda>ts.
                 forEach [0..int (length (intervals ts)) - 1]
                   (\<lambda>i (b, ops, sl).
                      bindP (index (intervals ts) i) (\<lambda>iv.
                      Inr (b + bytes iv, ops + int (length (latNano iv)), sl + slowdowns iv)))
                   acc))
              (0, 0, 0)) (\<lambda>(b, ops, sl).
     bindP (forEach [0..threads stats - 1]
              (\<lambda>t acc.
                 bindP (index (threadStats stats) t) (\<lambda>ts.
                 forEach [0..int (length (intervals ts)) - 1]
                   (\<lambda>i tmpLat.
                      bindP (index (intervals ts) i) (\<lambda>iv. Inr (tmpLat @ latNano iv)))
                   acc))
              []) (\<lambda>tmpLat.
     Inr \<lparr>loop = stats_loop stats, name = ''TOTAL'', mode = stats_mode stats, bytes = b,
          slowdowns = sl, intervalNano = endNano stats - startNano stats,
          latNano = sort tmpLat\<rparr>))"

text \<open>
  \<^verbatim>\<open>Stats.makeTotalStats\<close> compares the finished-worker count with the global variable
  \<^verbatim>\<open>threads\<close>, the parameter \<open>g_threads\<close> here.
\<close>

definition Stats_makeTotalStats :: "int \<Rightarrow> Stats \<Rightarrow> panic + (OutputStats \<times> bool)" where
  "Stats_makeTotalStats g_threads stats =
     (if completions stats < g_threads then Inr (OutputStats_zero, False)
      else bindP (Stats_totalRecord stats) (\<lambda>ist.
           bindP (IntervalStats_makeOutputStats ist) (\<lambda>os. Inr (os, True))))"

text \<open>
  One iteration of the loop of \<^verbatim>\<open>Stats.updateIntervals\<close>, for interval \<open>i\<close>:
  \<^verbatim>\<open>LoadOrStore\<close> creates the counter at 0 when it is absent, \<^verbatim>\<open>atomic.AddInt32\<close>
  increments it and returns the new count, and the record of the interval is logged when
  that count equals the worker count. The result carries the records logged, each with its
  interval index. Only \<^verbatim>\<open>*int32\<close> values are ever stored in the map, so the type
  assertion of the source cannot fail.
\<close>

type_synonym logged = "(int \<times> OutputStats) list"

definition completeInterval :: "Stats \<Rightarrow> int \<Rightarrow> panic + (Stats \<times> logged)" where
  "completeInterval stats i =
     (let count = (case intervalCompletions stats i of None \<Rightarrow> 0 | Some c \<Rightarrow> c) + 1;
          stats' = stats\<lparr>intervalCompletions := (intervalCompletions stats)(i \<mapsto> count)\<rparr>
      in if count = threads stats'
         then bindP (Stats_makeOutputStats stats' i) (\<lambda>(os, ok).
              Inr (stats', if ok then [(i, os)] else []))
         else Inr (stats', []))"

text \<open>
  \<^verbatim>\<open>Stats.updateIntervals(thread_num)\<close> at clock reading \<open>now\<close>: the new state, the
  returned interval index and the records logged.
\<close>

definition Stats_updateIntervals ::
    "Stats \<Rightarrow> int \<Rightarrow> int \<Rightarrow> (panic + (Stats \<times> int \<times> logged)) option" where
  "Stats_updateIntervals stats thread_num now =
     bindD (Some (index (threadStats stats) thread_num)) (\<lambda>ts.
     case ThreadStats_updateIntervals (stats_loop stats) (stats_mode stats)
            (stats_intervalNano stats) now ts of
       None \<Rightarrow> None
     | Some (ts', newInterval) \<Rightarrow>
         (let stats1 = stats\<lparr>threadStats := (threadStats stats)[nat thread_num := ts']\<rparr>
          in if curInterval ts < 0 then Some (Inr (stats1, - 1, []))
             else Some (bindP (forEach [curInterval ts..newInterval - 1]
                                 (\<lambda>i (s, lg). bindP (completeInterval s i) (\<lambda>(s', out).
                                    Inr (s', lg @ out)))
                                 (stats1, []))
                          (\<lambda>(s, lg). Inr (s, newInterval, lg)))))"

text \<open>
  \<^verbatim>\<open>makeStats\<close>: \<open>now0\<close> is the clock reading taken for \<^verbatim>\<open>start\<close>, and \<open>clk i\<close>
  the reading of the call \<^verbatim>\<open>s.updateIntervals(i)\<close>.
\<close>

definition makeStats ::
    "int \<Rightarrow> string \<Rightarrow> int \<Rightarrow> int \<Rightarrow> int \<Rightarrow> (int \<Rightarrow> int) \<Rightarrow> (panic + (Stats \<times> logged)) option" where
  "makeStats lp md n w now0 clk =
     forEachD [0..n - 1]
       (\<lambda>i (s, lg).
          bindD (Stats_updateIntervals
                   (s\<lparr>threadStats := threadStats s @
                        [makeThreadStats now0 (stats_loop s) (stats_mode s) (stats_intervalNano s)]\<rparr>)
                   i (clk i))
            (\<lambda>(s', _, out). Some (Inr (s', lg @ out))))
       (\<lparr>threads = n, stats_loop = lp, stats_mode = md, startNano = now0, endNano = 0,
         stats_intervalNano = w, threadStats = [], intervalCompletions = Map.empty,
         completions = 0\<rparr>, [])"

definition Stats_addOp :: "Stats \<Rightarrow> int \<Rightarrow> int \<Rightarrow> int \<Rightarrow> panic + Stats" where
  "Stats_addOp stats thread_num nbytes lat =
     bindP (index (threadStats stats) thread_num) (\<lambda>ts.
     let cur = curInterval ts in
     if cur < 0 then Inr stats
     else bindP (index (intervals ts) cur) (\<lambda>iv.
          Inr (stats\<lparr>threadStats := (threadStats stats)[nat thread_num :=
                 ts\<lparr>intervals := (intervals ts)[nat cur :=
                   iv\<lparr>bytes := bytes iv + nbytes, latNano := latNano iv @ [lat]\<rparr>]\<rparr>]\<rparr>)))"

definition Stats_addSlowDown :: "Stats \<Rightarrow> int \<Rightarrow> panic + Stats" where
  "Stats_addSlowDown stats thread_num =
     bindP (index (threadStats stats) thread_num) (\<lambda>ts.
     let cur = curInterval ts in
     bindP (index (intervals ts) cur) (\<lambda>iv.
     Inr (stats\<lparr>threadStats := (threadStats stats)[nat thread_num :=
            ts\<lparr>intervals := (intervals ts)[nat cur :=
              iv\<lparr>slowdowns := slowdowns iv + 1\<rparr>]\<rparr>]\<rparr>)))"

text \<open>
  \<^verbatim>\<open>Stats.finish(thread_num)\<close>: \<open>now\<close> is the clock reading of the call to
  \<^verbatim>\<open>updateIntervals\<close>, \<open>now'\<close> the one latched as the end of the phase.
\<close>

definition Stats_finish :: "Stats \<Rightarrow> int \<Rightarrow> int \<Rightarrow> int \<Rightarrow> (panic + (Stats \<times> logged)) option" where
  "Stats_finish stats thread_num now now' =
     bindD (Stats_updateIntervals stats thread_num now) (\<lambda>(s1, _, lg).
     bindD (Some (index (threadStats s1) thread_num)) (\<lambda>ts.
     let s2 = s1\<lparr>threadStats := (threadStats s1)[nat thread_num := ThreadStats_finish ts]\<rparr>;
         count = completions s2 + 1;
         s3 = s2\<lparr>completions := count\<rparr>
     in Some (Inr (if count = threads s3 then s3\<lparr>endNano := now'\<rparr> else s3, lg))))"

subsection \<open>Schedules of advance calls and the barrier invariant\<close>

text \<open>
  The workers call \<^verbatim>\<open>Stats.updateIntervals\<close> concurrently. Every access to a
  completion counter is one atomic operation, so an execution is an interleaving, and a
  list of calls, each with its worker and its clock reading, stands for the order in
  which the calls take effect.
\<close>

definition advanceAll :: "(int \<times> int) list \<Rightarrow> Stats \<times> logged \<Rightarrow> (panic + (Stats \<times> logged)) option" where
  "advanceAll calls =
     forEachD calls
       (\<lambda>(t, now) (s, lg).
          bindD (Stats_updateIntervals s t now) (\<lambda>(s', _, out). Some (Inr (s', lg @ out))))"

text \<open>The value of the completion counter of interval \<open>i\<close>, 0 when it is absent.\<close>

definition countOf :: "Stats \<Rightarrow> int \<Rightarrow> int" where
  "countOf s i = (case intervalCompletions s i of None \<Rightarrow> 0 | Some c \<Rightarrow> c)"

text \<open>How many records of a log belong to interval \<open>i\<close>.\<close>

definition emitted :: "logged \<Rightarrow> int \<Rightarrow> nat" where
  "emitted lg i = length (filter (\<lambda>e. fst e = i) lg)"

text \<open>
  \<open>marks ! t\<close> is the interval up to which worker \<open>t\<close> has been counted: its current
  interval between two calls, and its last interval once it has finished.
  \<open>passedBy marks i\<close> is the number of workers counted for interval \<open>i\<close>.
\<close>

definition passedBy :: "int list \<Rightarrow> int \<Rightarrow> int" where
  "passedBy marks i = (\<Sum>m\<leftarrow>marks. if i < m then 1 else 0)"

definition barrier_inv :: "Stats \<Rightarrow> logged \<Rightarrow> int list \<Rightarrow> bool" where
  "barrier_inv s lg marks \<longleftrightarrow>
     0 < stats_intervalNano s \<and> 0 < threads s \<and>
     length marks = length (threadStats s) \<and> int (length marks) \<le> threads s \<and>
     (\<forall>j < length marks. 0 \<le> marks ! j
         \<and> marks ! j < int (length (intervals (threadStats s ! j)))
         \<and> (0 \<le> curInterval (threadStats s ! j) \<longrightarrow>
               marks ! j \<le> curInterval (threadStats s ! j)
             \<and> int (length (intervals (threadStats s ! j))) = curInterval (threadStats s ! j) + 1)) \<and>
     (\<forall>i. intervalCompletions s i =
         (if 0 \<le> i \<and> 0 < passedBy marks i then Some (passedBy marks i) else None)) \<and>
     (\<forall>i. emitted lg i = (if 0 \<le> i \<and> passedBy marks i = threads s then 1 else 0))"

subsection \<open>The workers of the object phases\<close>

text \<open>
  The global variables that the workers and \<^verbatim>\<open>runWrapper\<close> read or write. The
  global \<^verbatim>\<open>threads\<close> is \<open>num_threads\<close>, \<^verbatim>\<open>endtime\<close> is a clock reading in
  nanoseconds, and the flag value \<^verbatim>\<open>interval\<close> is a rational number of seconds.
\<close>

record globals =
  op_counter :: int
  object_count :: int
  object_count_flag :: bool
  running_threads :: int
  duration_secs :: int
  endtime :: int
  bucket_count :: int
  buckets :: "string list"
  object_size :: int
  loop_objects :: bool
  num_threads :: int
  interval :: rat

text \<open>\<^verbatim>\<open>runUpload\<close>, \<^verbatim>\<open>runDownload\<close> and \<^verbatim>\<open>runDelete\<close>.\<close>

datatype opkind = Put | Get | Del

text \<open>
  What one iteration of a worker's loop observes of its environment: the clock at the head
  of the loop, the clock before and after the request and whether the request failed,
  the clock inside \<^verbatim>\<open>stats.updateIntervals\<close>, and, if the worker leaves its loop in
  this iteration, the two clock readings of \<^verbatim>\<open>stats.finish\<close>.
\<close>

record obs =
  o_now :: int
  o_start :: int
  o_err :: bool
  o_end :: int
  o_tick :: int
  o_fin :: int
  o_latch :: int

text \<open>Why a worker left its loop: the three \<^verbatim>\<open>break\<close> statements.\<close>

datatype exit = Expired | Exhausted | ErrLimit

text \<open>Go's \<^verbatim>\<open>%\<close> on integers truncates towards zero and panics on a zero divisor.\<close>

definition go_rem :: "int \<Rightarrow> int \<Rightarrow> panic + int" where
  "go_rem a b = (if b = 0 then Inl IntegerDivideByZero else Inr (sgn a * (\<bar>a\<bar> mod \<bar>b\<bar>)))"

type_synonym world = "globals \<times> Stats \<times> logged"

text \<open>
  One iteration of the loop of a worker, with the value of \<^verbatim>\<open>errcnt\<close> before it. The
  result says whether the loop is left and why, and gives the new \<^verbatim>\<open>errcnt\<close>. The
  three functions differ in three places: \<^verbatim>\<open>runUpload\<close> computes the bucket number
  before it tests the object count and gives its object number back when the request
  fails; \<^verbatim>\<open>runDownload\<close> reduces the object number modulo the object count when
  objects are looped over.
\<close>

definition worker_iter ::
    "opkind \<Rightarrow> int \<Rightarrow> obs \<Rightarrow> int \<Rightarrow> world \<Rightarrow> (panic + (exit option \<times> int \<times> world)) option" where
  "worker_iter kind thread_num ob errcnt wd =
     (case wd of (g, s, lg) \<Rightarrow>
      if duration_secs g > - 1 \<and> o_now ob > endtime g
      then Some (Inr (Some Expired, errcnt, (g, s, lg)))
      else
        let objnum0 = op_counter g + 1;
            g1 = g\<lparr>op_counter := objnum0\<rparr>
        in
        bindD (Some (case kind of
                 Put \<Rightarrow> bindP (go_rem objnum0 (bucket_count g1)) (\<lambda>_. Inr objnum0)
               | Get \<Rightarrow> if loop_objects g1 \<and> duration_secs g1 > - 1
                        then go_rem objnum0 (object_count g1) else Inr objnum0
               | Del \<Rightarrow> Inr objnum0)) (\<lambda>objnum.
        if object_count g1 > - 1 \<and> objnum \<ge> object_count g1
        then Some (Inr (Some Exhausted, errcnt, (g1\<lparr>op_counter := op_counter g1 - 1\<rparr>, s, lg)))
        else
          bindD (Some (go_rem objnum (bucket_count g1))) (\<lambda>bucket_num.
          bindD (Some (index (buckets g1) bucket_num)) (\<lambda>_.
          bindD (Stats_updateIntervals s thread_num (o_tick ob)) (\<lambda>(s1, _, out).
          if o_err ob
          then bindD (Some (Stats_addSlowDown s1 thread_num)) (\<lambda>s2.
               let errcnt' = errcnt + 1;
                   g2 = (if kind = Put then g1\<lparr>op_counter := op_counter g1 - 1\<rparr> else g1)
               in Some (Inr (if errcnt' > 2 then Some ErrLimit else None, errcnt',
                             (g2, s2, lg @ out))))
          else bindD (Some (Stats_addOp s1 thread_num (object_size g1) (o_end ob - o_start ob)))
                 (\<lambda>s2.
               Some (Inr (if errcnt > 2 then Some ErrLimit else None, errcnt,
                          (g1, s2, lg @ out)))))))))"

text \<open>The end of a worker, after its loop: \<^verbatim>\<open>stats.finish\<close> and the decrement of \<^verbatim>\<open>running_threads\<close>.\<close>

definition worker_exit :: "int \<Rightarrow> obs \<Rightarrow> world \<Rightarrow> (panic + world) option" where
  "worker_exit thread_num ob wd =
     (case wd of (g, s, lg) \<Rightarrow>
      bindD (Stats_finish s thread_num (o_fin ob) (o_latch ob)) (\<lambda>(s', out).
      Some (Inr (g\<lparr>running_threads := running_threads g - 1\<rparr>, s', lg @ out))))"

text \<open>
  The workers of a phase run concurrently. The local state of a worker is its
  \<^verbatim>\<open>errcnt\<close> and, once it has returned, the reason why it left its loop. A schedule
  is a list of steps, each naming a worker and what the worker observes: a step runs one
  iteration of that worker's loop and, if the loop is left, the end of the worker. A step
  for a worker that has returned, or that does not exist, does nothing.
\<close>

record worker =
  l_errcnt :: int
  l_exit :: "exit option"

type_synonym phase = "worker list \<times> world"

definition phase_step :: "opkind \<Rightarrow> int \<times> obs \<Rightarrow> phase \<Rightarrow> (panic + phase) option" where
  "phase_step kind st ph =
     (case st of (t, ob) \<Rightarrow> case ph of (ws, wd) \<Rightarrow>
      if 0 \<le> t \<and> t < int (length ws) \<and> l_exit (ws ! nat t) = None
      then bindD (worker_iter kind t ob (l_errcnt (ws ! nat t)) wd) (\<lambda>(ex, errcnt', wd').
           case ex of
             None \<Rightarrow> Some (Inr (ws[nat t := \<lparr>l_errcnt = errcnt', l_exit = None\<rparr>], wd'))
           | Some r \<Rightarrow>
               bindD (worker_exit t ob wd') (\<lambda>wd''.
               Some (Inr (ws[nat t := \<lparr>l_errcnt = errcnt', l_exit = Some r\<rparr>], wd''))))
      else Some (Inr (ws, wd)))"

definition runPhase :: "opkind \<Rightarrow> (int \<times> obs) list \<Rightarrow> phase \<Rightarrow> (panic + phase) option" where
  "runPhase kind sched = forEachD sched (phase_step kind)"

subsection \<open>runWrapper for the object phases\<close>

text \<open>\<^verbatim>\<open>int64(x)\<close> on a finite floating-point value truncates towards zero.\<close>

definition int64_of :: "rat \<Rightarrow> int" where
  "int64_of x = (if x < 0 then - \<lfloor>- x\<rfloor> else \<lfloor>x\<rfloor>)"

definition modeName :: "opkind \<Rightarrow> string" where
  "modeName kind = (case kind of Put \<Rightarrow> ''PUT'' | Get \<Rightarrow> ''GET'' | Del \<Rightarrow> ''DEL'')"

text \<open>
  The beginning of \<^verbatim>\<open>runWrapper\<close> up to the \<^verbatim>\<open>switch\<close>: the counters are reset, the
  end time is set from the clock reading \<open>now\<close>, and a put phase that follows a pinned
  object count sets the count back to \<open>-1\<close>.
\<close>

definition runWrapper_begin :: "opkind \<Rightarrow> int \<Rightarrow> globals \<Rightarrow> globals" where
  "runWrapper_begin kind now g =
     (let g1 = g\<lparr>op_counter := - 1, running_threads := num_threads g,
                 endtime := now + 1000000000 * duration_secs g\<rparr>
      in if kind = Put \<and> object_count_flag g1
         then g1\<lparr>object_count := - 1, object_count_flag := False\<rparr> else g1)"

text \<open>After the wait: a put phase that ran with no object count pins it.\<close>

definition runWrapper_pin :: "opkind \<Rightarrow> globals \<Rightarrow> globals" where
  "runWrapper_pin kind g =
     (if kind = Put \<and> object_count g < 0
      then g\<lparr>object_count := op_counter g + 1, object_count_flag := True\<rparr> else g)"

text \<open>
  The loop that collects the records of the intervals, from interval \<open>i\<close> on, until
  \<^verbatim>\<open>stats.makeOutputStats\<close> says that an interval is not ready.
\<close>

partial_function (option) drain ::
    "Stats \<Rightarrow> int \<Rightarrow> OutputStats list \<Rightarrow> (panic + OutputStats list) option" where
  "drain stats i os =
     (if i \<ge> 0
      then (let r = Stats_makeOutputStats stats i
            in if isl r then Some (Inl (projl r))
               else if snd (projr r) then drain stats (i + 1) (os @ [fst (projr r)])
               else Some (Inr os))
      else Some (Inr os))"

text \<open>
  \<^verbatim>\<open>runWrapper(loop, r)\<close> for \<open>r\<close> one of \<^verbatim>\<open>'p'\<close>, \<^verbatim>\<open>'g'\<close>, \<^verbatim>\<open>'d'\<close>. The
  clock reads \<open>now\<close> when the end time is set and \<open>now0\<close> in \<^verbatim>\<open>makeStats\<close>; \<open>sched\<close>
  is the schedule of the workers. The wait loop ends when \<^verbatim>\<open>running_threads\<close> has
  reached 0; if the schedule leaves a worker running, \<^verbatim>\<open>runWrapper\<close> does not return.
  The result is the globals and the returned records. The bucket phases run other workers
  and are not modelled; the log line of the TOTAL record is not modelled either.
\<close>

definition runWrapper ::
    "int \<Rightarrow> opkind \<Rightarrow> int \<Rightarrow> int \<Rightarrow> (int \<Rightarrow> int) \<Rightarrow> (int \<times> obs) list \<Rightarrow> globals
       \<Rightarrow> (panic + (globals \<times> OutputStats list)) option" where
  "runWrapper lp kind now now0 clk sched g =
     (let intervalNano = int64_of (interval g * 1000000000);
          g1 = runWrapper_begin kind now g
      in bindD (makeStats lp (modeName kind) (num_threads g1) intervalNano now0 clk)
           (\<lambda>(stats, lg0).
         bindD (runPhase kind sched
                  (replicate (nat (num_threads g1)) \<lparr>l_errcnt = 0, l_exit = None\<rparr>, (g1, stats, lg0)))
           (\<lambda>(ws, (g2, stats', lg1)).
         if running_threads g2 > 0 then None
         else
           let g3 = runWrapper_pin kind g2 in
           bindD (drain stats' 0 []) (\<lambda>os.
           bindD (Some (Stats_makeTotalStats (num_threads g3) stats')) (\<lambda>(ot, ok).
           Some (Inr (g3, if ok then os @ [ot] else os)))))))"

subsection \<open>Invariants\<close>

text \<open>The number of samples and of slowdowns a ledger holds.\<close>

definition ledgerOps :: "ThreadStats \<Rightarrow> int" where
  "ledgerOps ts = (\<Sum>iv\<leftarrow>intervals ts. int (length (latNano iv)))"

definition ledgerSlowdowns :: "ThreadStats \<Rightarrow> int" where
  "ledgerSlowdowns ts = (\<Sum>iv\<leftarrow>intervals ts. slowdowns iv)"

text \<open>
  What the workers need of the configuration so that forming the bucket and object numbers
  does not panic: \<^verbatim>\<open>main\<close> builds one bucket name per bucket, the bucket count is
  positive, and a looping get phase has a non-zero object count.
\<close>

definition config_ok :: "opkind \<Rightarrow> globals \<Rightarrow> bool" where
  "config_ok kind g \<longleftrightarrow> 0 < bucket_count g \<and> int (length (buckets g)) = bucket_count g
     \<and> (kind = Get \<and> loop_objects g \<and> duration_secs g > - 1 \<longrightarrow> object_count g \<noteq> 0)"

text \<open>The number of workers that have not returned.\<close>

definition active :: "worker list \<Rightarrow> int" where
  "active ws = (\<Sum>w\<leftarrow>ws. if l_exit w = None then 1 else 0)"

text \<open>
  The invariant of a phase. \<open>g0\<close> is the state of the globals when the workers start;
  the workers change the operation counter and \<^verbatim>\<open>running_threads\<close> only. The
  \<^verbatim>\<open>errcnt\<close> of a worker is the number of slowdowns on its ledger.
\<close>

definition phase_inv :: "opkind \<Rightarrow> globals \<Rightarrow> phase \<Rightarrow> bool" where
  "phase_inv kind g0 ph \<longleftrightarrow> (case ph of (ws, (g, s, lg)) \<Rightarrow>
     g = g0\<lparr>op_counter := op_counter g, running_threads := running_threads g\<rparr> \<and>
     config_ok kind g0 \<and> - 1 \<le> op_counter g \<and>
     length ws = length (threadStats s) \<and> int (length ws) = threads s \<and>
     (\<exists>marks. barrier_inv s lg marks
        \<and> (\<forall>j < length ws. l_exit (ws ! j) = None \<longrightarrow> marks ! j = curInterval (threadStats s ! j))) \<and>
     (\<forall>j < length ws.
          l_errcnt (ws ! j) = ledgerSlowdowns (threadStats s ! j)
        \<and> l_errcnt (ws ! j) \<le> 3
        \<and> (l_exit (ws ! j) = None \<longrightarrow> l_errcnt (ws ! j) \<le> 2)
        \<and> (l_exit (ws ! j) = Some ErrLimit \<longleftrightarrow> l_errcnt (ws ! j) = 3)
        \<and> (l_exit (ws ! j) \<noteq> None \<longrightarrow> curInterval (threadStats s ! j) = - 1)) \<and>
     running_threads g = active ws \<and>
     completions s = int (length ws) - active ws \<and>
     (kind = Put \<and> object_count g0 < 0 \<longrightarrow>
        op_counter g + 1 = (\<Sum>ts\<leftarrow>threadStats s. ledgerOps ts)))"

text \<open>Two states agree on everything but the ledgers and the completion counters.\<close>

definition sameConfig :: "Stats \<Rightarrow> Stats \<Rightarrow> bool" where
  "sameConfig s s' \<longleftrightarrow> threads s' = threads s \<and> completions s' = completions s
     \<and> startNano s' = startNano s \<and> endNano s' = endNano s \<and> stats_loop s' = stats_loop s
     \<and> stats_mode s' = stats_mode s \<and> stats_intervalNano s' = stats_intervalNano s"

subsection \<open>Example inputs\<close>

text \<open>
  A put phase of one worker with a one-second interval and a duration of one second; an operation of the worker, failed or not, early in the phase; and the
  iteration in which the worker finds the duration expired.
\<close>

definition example_globals :: globals where
  "example_globals =
     \<lparr>op_counter = - 1, object_count = - 1, object_count_flag = False, running_threads = 1,
      duration_secs = 1, endtime = 1000000000, bucket_count = 1,
      buckets = [''hotsauce-bench000000000000''], object_size = 1048576,
      loop_objects = False, num_threads = 1, interval = 1\<rparr>"

definition example_stats :: Stats where
  "example_stats =
     \<lparr>threads = 1, stats_loop = 0, stats_mode = ''PUT'', startNano = 0, endNano = 0,
      stats_intervalNano = 1000000000,
      threadStats = [makeThreadStats 0 0 ''PUT'' 1000000000],
      intervalCompletions = Map.empty, completions = 0\<rparr>"

definition example_op :: "bool \<Rightarrow> int \<times> obs" where
  "example_op failed =
     (0, \<lparr>o_now = 10, o_start = 10, o_err = failed, o_end = 20, o_tick = 20, o_fin = 30,
          o_latch = 30\<rparr>)"

definition example_stop :: "int \<times> obs" where
  "example_stop =
     (0, \<lparr>o_now = 1000000001, o_start = 0, o_err = False, o_end = 0, o_tick = 0,
          o_fin = 1000000002, o_latch = 1000000003\<rparr>)"

definition example_clock :: "int \<Rightarrow> int" where
  "example_clock i = 0"

subsection \<open>The specification's wording\<close>

text \<open>
  The index as the specification words it: \<open>round(p/100 \<times> N) - 1\<close>, round to nearest
  with ties away from zero, clamped into \<open>[0, N-1]\<close>.
\<close>

definition spec_round :: "rat \<Rightarrow> int" where
  "spec_round x = (if x < 0 then \<lceil>x - 1 / 2\<rceil> else \<lfloor>x + 1 / 2\<rfloor>)"

definition spec_index :: "nat \<Rightarrow> nat \<Rightarrow> int" where
  "spec_index p N = max 0 (min (int N - 1) (spec_round (of_nat p / 100 * of_nat N) - 1))"

text \<open>
  The specification's stop rule for a worker, over the outcomes of its operations in
  order (\<open>True\<close> for a failure): three failures in a row.
\<close>

fun three_consecutive :: "bool list \<Rightarrow> bool" where
  "three_consecutive (a # b # c # rest) = ((a \<and> b \<and> c) \<or> three_consecutive (b # c # rest))"
| "three_consecutive _ = False"

section \<open>Properties\<close>

lemma bindP_Inr [simp]: "bindP (Inr v) f = f v"
  by (simp add: bindP_def)

lemma bindP_Inl [simp]: "bindP (Inl e) f = Inl e"
  by (simp add: bindP_def)

lemma index_in_range [simp]: "0 \<le> i \<Longrightarrow> i < int (length xs) \<Longrightarrow> index xs i = Inr (xs ! nat i)"
  by (simp add: index_def)

lemma index_negative [simp]: "i < 0 \<Longrightarrow> index xs i = Inl IndexOutOfRange"
  by (simp add: index_def)


subsection \<open>The percentile index\<close>

lemma floor_numeral_div: "\<lfloor>(numeral a :: rat) / numeral b\<rfloor> = numeral a div numeral b"
  using floor_divide_of_int_eq [of "numeral a" "numeral b", where ?'a = rat] by simp

lemma math_Round_bounds:
  assumes "1 / 2 \<le> p" "p \<le> 1" "0 < N"
  shows "1 \<le> math_Round (p * of_int N)" "math_Round (p * of_int N) \<le> N"
proof -
  have N1: "(1::rat) \<le> of_int N" using assms(3) by simp
  have "1 / 2 * 1 \<le> p * of_int N"
    using assms(1) N1 by (intro mult_mono) auto
  then have lo: "1 \<le> p * of_int N + 1 / 2" by simp
  have "p * of_int N \<le> 1 * of_int N"
    using assms(2) N1 by (intro mult_right_mono) auto
  then have hi: "p * of_int N + 1 / 2 < of_int (N + 1)" by simp
  have nn: "\<not> p * of_int N < 0" using lo by linarith
  show "1 \<le> math_Round (p * of_int N)"
    using lo nn by (simp add: math_Round_def le_floor_iff)
  have "\<lfloor>p * of_int N + 1 / 2\<rfloor> < N + 1"
    using hi by (simp only: floor_less_iff)
  then show "math_Round (p * of_int N) \<le> N"
    using nn by (simp add: math_Round_def)
qed

lemma pctIndex_bounds:
  assumes "1 / 2 \<le> p" "p \<le> 1" "0 < N"
  shows "0 \<le> pctIndex p N" "pctIndex p N < N"
  using math_Round_bounds [OF assms] by (simp_all add: pctIndex_def)

lemma spec_round_eq: "spec_round x = math_Round x"
  by (simp add: spec_round_def math_Round_def ceiling_def)

lemma spec_index_eq:
  assumes "1 / 2 \<le> (of_nat p :: rat) / 100" "(of_nat p :: rat) / 100 \<le> 1" "0 < N"
  shows "spec_index p N = pctIndex (of_nat p / 100) (int N)"
proof -
  have "0 < int N" using assms(3) by simp
  from pctIndex_bounds [OF assms(1,2) this] show ?thesis
    by (simp add: spec_index_def spec_round_eq pctIndex_def)
qed

lemma millis_eq: "millis x = Fin (of_int x / 1000000)"
  by (simp add: millis_def float64_of_def)

lemma pctLat_ok:
  assumes "1 / 2 \<le> p" "p \<le> 1" "xs \<noteq> []"
  shows "pctLat xs p = Inr (millis (xs ! nat (pctIndex p (int (length xs)))))"
proof -
  have "0 < int (length xs)" using assms(3) by simp
  from pctIndex_bounds [OF assms(1,2) this] show ?thesis
    by (simp add: pctLat_def)
qed

subsection \<open>The summary of one record\<close>

lemma makeOutputStats_nonempty:
  assumes "latNano ist \<noteq> []"
  shows "IntervalStats_makeOutputStats ist = Inr
    \<lparr>Loop = loop ist, IntervalName = name ist,
     Seconds = fdiv (float64_of (intervalNano ist)) (Fin 1000000000),
     Mode = mode ist, Ops = int (length (latNano ist)),
     Mbps = fdiv (fdiv (float64_of (bytes ist)) (fdiv (float64_of (intervalNano ist)) (Fin 1000000000)))
              (float64_of MEGABYTE),
     Iops = fdiv (float64_of (int (length (latNano ist)))) (fdiv (float64_of (intervalNano ist)) (Fin 1000000000)),
     MinLat = millis (latNano ist ! 0),
     AvgLat = fdiv (fdiv (float64_of (sum_list (latNano ist))) (float64_of (int (length (latNano ist)))))
                (Fin 1000000),
     Lat99 = millis (latNano ist ! nat (pctIndex (99 / 100) (int (length (latNano ist))))),
     Lat95 = millis (latNano ist ! nat (pctIndex (95 / 100) (int (length (latNano ist))))),
     Lat90 = millis (latNano ist ! nat (pctIndex (9 / 10) (int (length (latNano ist))))),
     Lat75 = millis (latNano ist ! nat (pctIndex (75 / 100) (int (length (latNano ist))))),
     Lat50 = millis (latNano ist ! nat (pctIndex (5 / 10) (int (length (latNano ist))))),
     MaxLat = millis (latNano ist ! (length (latNano ist) - 1)),
     Slowdowns = slowdowns ist\<rparr>"
proof -
  have pos: "0 < length (latNano ist)" using assms by simp
  have last: "nat (int (length (latNano ist)) - 1) = length (latNano ist) - 1" by simp
  show ?thesis
    unfolding IntervalStats_makeOutputStats_def Let_def
    using pos by (simp add: pctLat_ok [OF _ _ assms] last)
qed

lemma makeOutputStats_empty:
  assumes "latNano ist = []"
  shows "IntervalStats_makeOutputStats ist = Inr
    \<lparr>Loop = loop ist, IntervalName = name ist,
     Seconds = fdiv (float64_of (intervalNano ist)) (Fin 1000000000),
     Mode = mode ist, Ops = 0,
     Mbps = fdiv (fdiv (float64_of (bytes ist)) (fdiv (float64_of (intervalNano ist)) (Fin 1000000000)))
              (float64_of MEGABYTE),
     Iops = fdiv (float64_of 0) (fdiv (float64_of (intervalNano ist)) (Fin 1000000000)),
     MinLat = Fin 0, AvgLat = Fin 0, Lat99 = Fin 0, Lat95 = Fin 0, Lat90 = Fin 0,
     Lat75 = Fin 0, Lat50 = Fin 0, MaxLat = Fin 0, Slowdowns = slowdowns ist\<rparr>"
  unfolding IntervalStats_makeOutputStats_def Let_def using assms by simp

lemma makeOutputStats_total: "\<exists>os. IntervalStats_makeOutputStats ist = Inr os"
  by (cases "latNano ist = []") (simp_all add: makeOutputStats_empty makeOutputStats_nonempty)

lemma makeOutputStats_rates:
  assumes "IntervalStats_makeOutputStats ist = Inr os"
  shows "Seconds os = fdiv (float64_of (intervalNano ist)) (Fin 1000000000)"
    and "Mbps os = fdiv (fdiv (float64_of (bytes ist)) (Seconds os)) (float64_of MEGABYTE)"
    and "Iops os = fdiv (float64_of (int (length (latNano ist)))) (Seconds os)"
    and "Ops os = int (length (latNano ist))"
    and "Slowdowns os = slowdowns ist"
    and "IntervalName os = name ist"
  using assms
  by (cases "latNano ist = []"; auto simp: makeOutputStats_empty makeOutputStats_nonempty)+



text \<open>
  C9, as the code has it. With no sample, every latency field is exactly 0, the operation
  count is 0, no slice is read and nothing panics. IOPS is 0 when the elapsed time of the
  record is not zero. When it is zero, the quotient \<^verbatim>\<open>float64(0) / seconds\<close> is the
  floating-point division of zero by zero: no panic, and the value is NaN, not 0.
\<close>

theorem makeOutputStats_no_samples:
  assumes "latNano ist = []"
  shows "\<exists>os. IntervalStats_makeOutputStats ist = Inr os
    \<and> MinLat os = Fin 0 \<and> AvgLat os = Fin 0 \<and> Lat50 os = Fin 0 \<and> Lat75 os = Fin 0
    \<and> Lat90 os = Fin 0 \<and> Lat95 os = Fin 0 \<and> Lat99 os = Fin 0 \<and> MaxLat os = Fin 0
    \<and> Ops os = 0
    \<and> Iops os = (if intervalNano ist = 0 then NaN else Fin 0)"
  by (simp add: makeOutputStats_empty [OF assms] float64_of_def)

theorem makeOutputStats_no_samples_witness:
  "\<exists>os. IntervalStats_makeOutputStats
      \<lparr>loop = 0, name = ''TOTAL'', mode = ''GET'', bytes = 0, slowdowns = 3,
       intervalNano = 2500000000, latNano = []\<rparr> = Inr os
    \<and> MinLat os = Fin 0 \<and> AvgLat os = Fin 0 \<and> Lat50 os = Fin 0 \<and> Lat75 os = Fin 0
    \<and> Lat90 os = Fin 0 \<and> Lat95 os = Fin 0 \<and> Lat99 os = Fin 0 \<and> MaxLat os = Fin 0
    \<and> Ops os = 0 \<and> Iops os = Fin 0"
  using makeOutputStats_no_samples [of
      "\<lparr>loop = 0, name = ''TOTAL'', mode = ''GET'', bytes = 0, slowdowns = 3,
       intervalNano = 2500000000, latNano = []\<rparr>"]
  by simp

text \<open>
  C9 as stated fails for a record without samples whose elapsed time is zero: IOPS is NaN.
\<close>

theorem makeOutputStats_no_samples_counterexample:
  "map_sum id Iops (IntervalStats_makeOutputStats
      \<lparr>loop = 0, name = ''TOTAL'', mode = ''GET'', bytes = 0, slowdowns = 0,
       intervalNano = 0, latNano = []\<rparr>) = Inr NaN \<and> NaN \<noteq> Fin 0"
  by (simp add: makeOutputStats_empty float64_of_def)

text \<open>
  C6, as the code has it. For a record whose elapsed time is not zero, the throughput is
  the byte count divided by the elapsed seconds and by \<^verbatim>\<open>bytefmt.MEGABYTE\<close>, which is
  1048576 (the binary megabyte), and IOPS is the operation count divided by the elapsed
  seconds.
\<close>

theorem makeOutputStats_throughput:
  assumes "intervalNano ist \<noteq> 0"
  shows "\<exists>os. IntervalStats_makeOutputStats ist = Inr os
    \<and> Seconds os = Fin (of_int (intervalNano ist) / 1000000000)
    \<and> Mbps os = Fin (of_int (bytes ist) / (of_int (intervalNano ist) / 1000000000) / 1048576)
    \<and> Iops os = Fin (of_nat (length (latNano ist)) / (of_int (intervalNano ist) / 1000000000))"
proof -
  obtain os where os: "IntervalStats_makeOutputStats ist = Inr os"
    using makeOutputStats_total by blast
  have sec: "Seconds os = Fin (of_int (intervalNano ist) / 1000000000)"
    using makeOutputStats_rates(1) [OF os] by (simp add: float64_of_def)
  have "Mbps os = Fin (of_int (bytes ist) / (of_int (intervalNano ist) / 1000000000) / 1048576)"
    using makeOutputStats_rates(2) [OF os] assms by (simp add: sec float64_of_def MEGABYTE_def)
  moreover have "Iops os = Fin (of_nat (length (latNano ist)) / (of_int (intervalNano ist) / 1000000000))"
    using makeOutputStats_rates(3) [OF os] assms by (simp add: sec float64_of_def)
  ultimately show ?thesis using os sec by simp
qed

theorem makeOutputStats_throughput_witness:
  "\<exists>os. IntervalStats_makeOutputStats
      \<lparr>loop = 0, name = ''0'', mode = ''PUT'', bytes = 2097152, slowdowns = 0,
       intervalNano = 2000000000, latNano = [5, 6, 7, 8]\<rparr> = Inr os
    \<and> Seconds os = Fin 2 \<and> Mbps os = Fin 1 \<and> Iops os = Fin 2"
  using makeOutputStats_throughput [of
      "\<lparr>loop = 0, name = ''0'', mode = ''PUT'', bytes = 2097152, slowdowns = 0,
       intervalNano = 2000000000, latNano = [5, 6, 7, 8]\<rparr>"]
  by simp

text \<open>
  C6 as stated fails: 1048576 bytes in one second are reported as 1 MB/s, and the claim's
  division by 1000000 would give 1.048576.
\<close>

theorem makeOutputStats_throughput_counterexample:
  "map_sum id Mbps (IntervalStats_makeOutputStats
      \<lparr>loop = 0, name = ''0'', mode = ''PUT'', bytes = 1048576, slowdowns = 0,
       intervalNano = 1000000000, latNano = [250000]\<rparr>) = Inr (Fin 1)
   \<and> Fin 1 \<noteq> Fin (1048576 / (1000000000 / 1000000000) / 1000000)"
  by (simp add: makeOutputStats_nonempty float64_of_def MEGABYTE_def)


subsection \<open>Counted loops\<close>

lemma forEach_Inr:
  "(\<And>x a. x \<in> set xs \<Longrightarrow> body x a = Inr (g x a)) \<Longrightarrow> forEach xs body acc = Inr (fold g xs acc)"
  by (induction xs arbitrary: acc) simp_all

lemma forEach_cong:
  "(\<And>x a. x \<in> set xs \<Longrightarrow> f x a = g x a) \<Longrightarrow> forEach xs f acc = forEach xs g acc"
  by (induction xs arbitrary: acc) (simp_all add: bindP_def split: sum.splits)

lemma forEach_indexed_drop:
  "forEach [int k..int (length ys) - 1] (\<lambda>t acc. bindP (index ys t) (\<lambda>y. h y acc)) acc
     = forEach (drop k ys) h acc"
proof (induction "length ys - k" arbitrary: k acc)
  case 0
  then show ?case by simp
next
  case (Suc n)
  then have k: "k < length ys" by simp
  have up: "[int k..int (length ys) - 1] = int k # [int (Suc k)..int (length ys) - 1]"
    using k upto_rec1 [of "int k" "int (length ys) - 1"] by (simp add: add.commute)
  have dr: "drop k ys = ys ! k # drop (Suc k) ys"
    using k by (simp add: Cons_nth_drop_Suc)
  have IH: "forEach [int (Suc k)..int (length ys) - 1] (\<lambda>t acc. bindP (index ys t) (\<lambda>y. h y acc))
      = forEach (drop (Suc k) ys) h"
    using Suc.hyps(1) [of "Suc k"] Suc.hyps(2) by (intro ext) simp
  show ?case
    using k by (simp only: up dr forEach.simps IH) simp
qed

lemma forEach_indexed:
  "forEach [0..int (length ys) - 1] (\<lambda>t acc. bindP (index ys t) (\<lambda>y. h y acc)) acc = forEach ys h acc"
  using forEach_indexed_drop [of 0 ys h acc] by simp


subsection \<open>The advance of one ledger\<close>

lemma updateIntervals_negative_noop:
  "w < 0 \<Longrightarrow> ThreadStats_updateIntervals lp md w now ts = Some (ts, curInterval ts)"
  by (simp add: ThreadStats_updateIntervals_def)

lemma updateIntervals_loop_zero_never_returns:
  assumes "updateIntervals_loop lp md w now ts = Some y"
  shows "\<not> (w = 0 \<and> start ts < now)"
proof (rule updateIntervals_loop.raw_induct
    [where P = "\<lambda>lp md w now ts y. \<not> (w = 0 \<and> start ts < now)", OF _ assms])
  fix f lp md w now ts y
  assume IH: "\<And>lp md w now ts y. f lp md w now ts = Some y \<Longrightarrow> \<not> (w = 0 \<and> start ts < now)"
    and step: "(if start ts + w * (curInterval ts + 1) < now
      then f lp md w now
             (ts\<lparr>curInterval := curInterval ts + 1,
                 intervals := intervals ts @
                   [\<lparr>loop = lp, name = FormatInt (curInterval ts + 1), mode = md, bytes = 0,
                     slowdowns = 0, intervalNano = w, latNano = []\<rparr>]\<rparr>)
      else Some ts) = Some y"
  show "\<not> (w = 0 \<and> start ts < now)"
  proof
    assume a: "w = 0 \<and> start ts < now"
    with step have "f lp md w now
             (ts\<lparr>curInterval := curInterval ts + 1,
                 intervals := intervals ts @
                   [\<lparr>loop = lp, name = FormatInt (curInterval ts + 1), mode = md, bytes = 0,
                     slowdowns = 0, intervalNano = w, latNano = []\<rparr>]\<rparr>) = Some y"
      by simp
    from IH [OF this] a show False by simp
  qed
qed

lemma updateIntervals_loop_zero:
  "start ts < now \<Longrightarrow> updateIntervals_loop lp md 0 now ts = None"
  using updateIntervals_loop_zero_never_returns [of lp md 0 now ts]
  by (cases "updateIntervals_loop lp md 0 now ts") auto

lemma updateIntervals_zero_diverges:
  "start ts < now \<Longrightarrow> ThreadStats_updateIntervals lp md 0 now ts = None"
  by (simp add: ThreadStats_updateIntervals_def updateIntervals_loop_zero)

text \<open>
  C4. A negative interval width makes \<^verbatim>\<open>ThreadStats.updateIntervals\<close> return at once
  with the ledger unchanged (\<open>updateIntervals_negative_noop\<close>). A width of zero does not:
  the guard is \<^verbatim>\<open>intervalNano < 0\<close>, the loop condition is then \<^verbatim>\<open>start < now\<close>
  whatever the interval index, and the call never returns once the clock has passed the
  start of the phase. Here: a fresh ledger started at 100, width 0, clock at 101.
\<close>

theorem updateIntervals_zero_width:
  "ThreadStats_updateIntervals 0 ''PUT'' 0 101 (makeThreadStats 100 0 ''PUT'' 0) = None"
  by (simp add: ThreadStats_updateIntervals_def updateIntervals_loop_zero makeThreadStats_def)

subsection \<open>The total of a phase\<close>

lemma fold_counters:
  "fold (\<lambda>iv (b, ops, sl). (b + bytes iv, ops + int (length (latNano iv)), sl + slowdowns iv)) ivs (b0, o0, s0)
     = (b0 + (\<Sum>iv\<leftarrow>ivs. bytes iv), o0 + (\<Sum>iv\<leftarrow>ivs. int (length (latNano iv))),
        s0 + (\<Sum>iv\<leftarrow>ivs. slowdowns iv))"
  by (induction ivs arbitrary: b0 o0 s0) simp_all

lemma fold_samples:
  "fold (\<lambda>iv tmpLat. tmpLat @ latNano iv) ivs acc = acc @ concat (map latNano ivs)"
  by (induction ivs arbitrary: acc) simp_all

lemma length_concat_int: "int (length (concat xss)) = (\<Sum>xs\<leftarrow>xss. int (length xs))"
  by (induction xss) simp_all

lemma totalRecord_counters:
  "forEach tss
     (\<lambda>ts acc. forEach [0..int (length (intervals ts)) - 1]
        (\<lambda>i (b, ops, sl). bindP (index (intervals ts) i) (\<lambda>iv.
           Inr (b + bytes iv, ops + int (length (latNano iv)), sl + slowdowns iv))) acc)
     (b0, o0, s0)
   = Inr (b0 + (\<Sum>iv\<leftarrow>concat (map intervals tss). bytes iv),
          o0 + (\<Sum>iv\<leftarrow>concat (map intervals tss). int (length (latNano iv))),
          s0 + (\<Sum>iv\<leftarrow>concat (map intervals tss). slowdowns iv))"
proof (induction tss arbitrary: b0 o0 s0)
  case Nil
  show ?case by simp
next
  case (Cons ts tss)
  have inner: "forEach [0..int (length (intervals ts)) - 1]
        (\<lambda>i (b, ops, sl). bindP (index (intervals ts) i) (\<lambda>iv.
           Inr (b + bytes iv, ops + int (length (latNano iv)), sl + slowdowns iv))) (b0, o0, s0)
     = Inr (b0 + (\<Sum>iv\<leftarrow>intervals ts. bytes iv), o0 + (\<Sum>iv\<leftarrow>intervals ts. int (length (latNano iv))),
        s0 + (\<Sum>iv\<leftarrow>intervals ts. slowdowns iv))"
  proof -
    have "forEach [0..int (length (intervals ts)) - 1]
        (\<lambda>i (b, ops, sl). bindP (index (intervals ts) i) (\<lambda>iv.
           Inr (b + bytes iv, ops + int (length (latNano iv)), sl + slowdowns iv))) (b0, o0, s0)
      = forEach [0..int (length (intervals ts)) - 1]
        (\<lambda>i acc. bindP (index (intervals ts) i) (\<lambda>iv. (\<lambda>iv (b, ops, sl).
           Inr (b + bytes iv, ops + int (length (latNano iv)), sl + slowdowns iv)) iv acc)) (b0, o0, s0)"
      by (rule forEach_cong) (simp add: split_def)
    also have "\<dots> = forEach (intervals ts) (\<lambda>iv (b, ops, sl).
           Inr (b + bytes iv, ops + int (length (latNano iv)), sl + slowdowns iv)) (b0, o0, s0)"
      by (rule forEach_indexed)
    also have "\<dots> = Inr (fold (\<lambda>iv (b, ops, sl). (b + bytes iv, ops + int (length (latNano iv)), sl + slowdowns iv))
         (intervals ts) (b0, o0, s0))"
      by (rule forEach_Inr) (simp add: split_def)
    finally show ?thesis by (simp add: fold_counters)
  qed
  show ?case
    by (simp add: inner Cons.IH add.assoc)
qed

lemma totalRecord_samples:
  "forEach tss
     (\<lambda>ts acc. forEach [0..int (length (intervals ts)) - 1]
        (\<lambda>i tmpLat. bindP (index (intervals ts) i) (\<lambda>iv. Inr (tmpLat @ latNano iv))) acc)
     acc0
   = Inr (acc0 @ concat (map latNano (concat (map intervals tss))))"
proof (induction tss arbitrary: acc0)
  case Nil
  show ?case by simp
next
  case (Cons ts tss)
  have inner: "forEach [0..int (length (intervals ts)) - 1]
        (\<lambda>i tmpLat. bindP (index (intervals ts) i) (\<lambda>iv. Inr (tmpLat @ latNano iv))) acc0
     = Inr (acc0 @ concat (map latNano (intervals ts)))"
  proof -
    have "forEach [0..int (length (intervals ts)) - 1]
        (\<lambda>i acc. bindP (index (intervals ts) i) (\<lambda>iv. (\<lambda>iv tmpLat. Inr (tmpLat @ latNano iv)) iv acc)) acc0
      = forEach (intervals ts) (\<lambda>iv tmpLat. Inr (tmpLat @ latNano iv)) acc0"
      by (rule forEach_indexed)
    also have "\<dots> = Inr (fold (\<lambda>iv tmpLat. tmpLat @ latNano iv) (intervals ts) acc0)"
      by (rule forEach_Inr) simp
    finally show ?thesis by (simp add: fold_samples)
  qed
  show ?case
    by (simp add: inner Cons.IH)
qed

lemma Stats_totalRecord_eq:
  assumes "threads stats = int (length (threadStats stats))"
  shows "Stats_totalRecord stats = Inr
    \<lparr>loop = stats_loop stats, name = ''TOTAL'', mode = stats_mode stats,
     bytes = (\<Sum>iv\<leftarrow>concat (map intervals (threadStats stats)). bytes iv),
     slowdowns = (\<Sum>iv\<leftarrow>concat (map intervals (threadStats stats)). slowdowns iv),
     intervalNano = endNano stats - startNano stats,
     latNano = sort (concat (map latNano (concat (map intervals (threadStats stats)))))\<rparr>"
proof -
  have c: "forEach [0..int (length (threadStats stats)) - 1]
              (\<lambda>t acc.
                 bindP (index (threadStats stats) t) (\<lambda>ts.
                 forEach [0..int (length (intervals ts)) - 1]
                   (\<lambda>i (b, ops, sl).
                      bindP (index (intervals ts) i) (\<lambda>iv.
                      Inr (b + bytes iv, ops + int (length (latNano iv)), sl + slowdowns iv)))
                   acc))
              (0, 0, 0) = Inr ((\<Sum>iv\<leftarrow>concat (map intervals (threadStats stats)). bytes iv),
          (\<Sum>iv\<leftarrow>concat (map intervals (threadStats stats)). int (length (latNano iv))),
          (\<Sum>iv\<leftarrow>concat (map intervals (threadStats stats)). slowdowns iv))"
    by (simp only: forEach_indexed [of "threadStats stats" "\<lambda>ts acc. forEach [0..int (length (intervals ts)) - 1]
                   (\<lambda>i (b, ops, sl).
                      bindP (index (intervals ts) i) (\<lambda>iv.
                      Inr (b + bytes iv, ops + int (length (latNano iv)), sl + slowdowns iv)))
                   acc"] totalRecord_counters) simp
  have s: "forEach [0..int (length (threadStats stats)) - 1]
              (\<lambda>t acc.
                 bindP (index (threadStats stats) t) (\<lambda>ts.
                 forEach [0..int (length (intervals ts)) - 1]
                   (\<lambda>i tmpLat.
                      bindP (index (intervals ts) i) (\<lambda>iv. Inr (tmpLat @ latNano iv)))
                   acc))
              [] = Inr (concat (map latNano (concat (map intervals (threadStats stats)))))"
    by (simp only: forEach_indexed [of "threadStats stats" "\<lambda>ts acc. forEach [0..int (length (intervals ts)) - 1]
                   (\<lambda>i tmpLat.
                      bindP (index (intervals ts) i) (\<lambda>iv. Inr (tmpLat @ latNano iv)))
                   acc"] totalRecord_samples) simp
  show ?thesis
    unfolding Stats_totalRecord_def assms by (simp only: c s bindP_Inr prod.case)
qed


lemma sum_list_concat_map:
  "(\<Sum>iv\<leftarrow>concat (map intervals tss). f iv) = (\<Sum>ts\<leftarrow>tss. \<Sum>iv\<leftarrow>intervals ts. (f iv :: int))"
  by (induction tss) simp_all





subsection \<open>The read paths\<close>

text \<open>
  C8. \<^verbatim>\<open>Stats.makeOutputStats(i)\<close> returns the zero record and \<open>False\<close> when the
  completion counter of interval \<open>i\<close> is absent or below the worker count, and
  \<^verbatim>\<open>Stats.makeTotalStats\<close> does so when fewer workers than the worker count have
  finished. Both are plain function results: nothing waits. Conversely a result flagged
  \<open>True\<close> is only produced when the counter has reached the worker count.
\<close>

theorem read_paths_refuse:
  "(intervalCompletions stats i = None \<or> (\<exists>c. intervalCompletions stats i = Some c \<and> c < threads stats)
      \<longrightarrow> Stats_makeOutputStats stats i = Inr (OutputStats_zero, False))
   \<and> (completions stats < g_threads
      \<longrightarrow> Stats_makeTotalStats g_threads stats = Inr (OutputStats_zero, False))
   \<and> (\<forall>os. Stats_makeOutputStats stats i = Inr (os, True)
      \<longrightarrow> (\<exists>c. intervalCompletions stats i = Some c \<and> threads stats \<le> c))
   \<and> (\<forall>os. Stats_makeTotalStats g_threads stats = Inr (os, True) \<longrightarrow> g_threads \<le> completions stats)"
  by (auto simp: Stats_makeOutputStats_def Stats_makeTotalStats_def split: option.splits if_splits)


theorem read_paths_refuse_witness:
  "Stats_makeOutputStats
      \<lparr>threads = 2, stats_loop = 0, stats_mode = ''PUT'', startNano = 0, endNano = 2000000000,
       stats_intervalNano = 1000000000,
       threadStats =
         [\<lparr>start = 0, curInterval = - 1, intervals =
            [\<lparr>loop = 0, name = ''0'', mode = ''PUT'', bytes = 10, slowdowns = 1,
              intervalNano = 1000000000, latNano = [5, 7]\<rparr>,
             \<lparr>loop = 0, name = ''1'', mode = ''PUT'', bytes = 20, slowdowns = 0,
              intervalNano = 1000000000, latNano = [3]\<rparr>]\<rparr>,
          \<lparr>start = 0, curInterval = - 1, intervals =
            [\<lparr>loop = 0, name = ''0'', mode = ''PUT'', bytes = 1, slowdowns = 2,
              intervalNano = 1000000000, latNano = [9]\<rparr>]\<rparr>],
       intervalCompletions = Map.empty, completions = 1\<rparr> 0 = Inr (OutputStats_zero, False)
   \<and> Stats_makeTotalStats 2
      \<lparr>threads = 2, stats_loop = 0, stats_mode = ''PUT'', startNano = 0, endNano = 2000000000,
       stats_intervalNano = 1000000000,
       threadStats =
         [\<lparr>start = 0, curInterval = - 1, intervals =
            [\<lparr>loop = 0, name = ''0'', mode = ''PUT'', bytes = 10, slowdowns = 1,
              intervalNano = 1000000000, latNano = [5, 7]\<rparr>,
             \<lparr>loop = 0, name = ''1'', mode = ''PUT'', bytes = 20, slowdowns = 0,
              intervalNano = 1000000000, latNano = [3]\<rparr>]\<rparr>,
          \<lparr>start = 0, curInterval = - 1, intervals =
            [\<lparr>loop = 0, name = ''0'', mode = ''PUT'', bytes = 1, slowdowns = 2,
              intervalNano = 1000000000, latNano = [9]\<rparr>]\<rparr>],
       intervalCompletions = Map.empty, completions = 1\<rparr> = Inr (OutputStats_zero, False)"
  using read_paths_refuse [of
      "\<lparr>threads = 2, stats_loop = 0, stats_mode = ''PUT'', startNano = 0, endNano = 2000000000,
       stats_intervalNano = 1000000000,
       threadStats =
         [\<lparr>start = 0, curInterval = - 1, intervals =
            [\<lparr>loop = 0, name = ''0'', mode = ''PUT'', bytes = 10, slowdowns = 1,
              intervalNano = 1000000000, latNano = [5, 7]\<rparr>,
             \<lparr>loop = 0, name = ''1'', mode = ''PUT'', bytes = 20, slowdowns = 0,
              intervalNano = 1000000000, latNano = [3]\<rparr>]\<rparr>,
          \<lparr>start = 0, curInterval = - 1, intervals =
            [\<lparr>loop = 0, name = ''0'', mode = ''PUT'', bytes = 1, slowdowns = 2,
              intervalNano = 1000000000, latNano = [9]\<rparr>]\<rparr>],
       intervalCompletions = Map.empty, completions = 1\<rparr>" 0 2]
  by simp

subsection \<open>Recording after finish\<close>

lemma addSlowDown_finished:
  "index (threadStats s) t = Inr ts \<Longrightarrow> curInterval ts = - 1 \<Longrightarrow> Stats_addSlowDown s t = Inl IndexOutOfRange"
  by (simp add: Stats_addSlowDown_def)

lemma addOp_finished:
  "index (threadStats s) t = Inr ts \<Longrightarrow> curInterval ts < 0 \<Longrightarrow> Stats_addOp s t b l = Inr s"
  by (simp add: Stats_addOp_def)

lemma index_Inr_iff: "index xs i = Inr v \<longleftrightarrow> 0 \<le> i \<and> i < int (length xs) \<and> v = xs ! nat i"
  by (auto simp: index_def)

lemma bindD_Some_Inr:
  "bindD m f = Some (Inr r) \<longleftrightarrow> (\<exists>v. m = Some (Inr v) \<and> f v = Some (Inr r))"
  by (auto simp: bindD_def split: option.splits sum.splits)

lemma bindP_Inr_iff:
  "bindP m f = Inr r \<longleftrightarrow> (\<exists>v. m = Inr v \<and> f v = Inr r)"
  by (auto simp: bindP_def split: sum.splits)

lemma Stats_finish_sentinel:
  assumes "Stats_finish s t now now' = Some (Inr (s', lg))"
  shows "\<exists>ts. index (threadStats s') t = Inr ts \<and> curInterval ts = - 1"
  using assms
  by (auto simp: Stats_finish_def bindD_Some_Inr Let_def index_Inr_iff ThreadStats_finish_def
      split: if_splits)


lemma upto_single: "[i..i] = [i]"
  by (simp add: upto_rec1)



subsection \<open>The barrier\<close>

lemma updateIntervals_loop_positive:
  assumes "0 < w"
  shows "\<exists>ts' new. updateIntervals_loop lp md w now ts = Some ts' \<and> start ts' = start ts
     \<and> curInterval ts \<le> curInterval ts'
     \<and> intervals ts' = intervals ts @ new
     \<and> int (length new) = curInterval ts' - curInterval ts
     \<and> (\<forall>iv\<in>set new. latNano iv = [] \<and> slowdowns iv = 0 \<and> bytes iv = 0)"
proof (induction "nat (now - (start ts + w * (curInterval ts + 1)))" arbitrary: ts rule: less_induct)
  case less
  show ?case
  proof (cases "start ts + w * (curInterval ts + 1) < now")
    case False
    then show ?thesis by (subst updateIntervals_loop.simps) simp
  next
    case True
    let ?iv = "\<lparr>loop = lp, name = FormatInt (curInterval ts + 1), mode = md, bytes = 0,
                     slowdowns = 0, intervalNano = w, latNano = []\<rparr>"
    let ?ts = "ts\<lparr>curInterval := curInterval ts + 1, intervals := intervals ts @ [?iv]\<rparr>"
    have "nat (now - (start ?ts + w * (curInterval ?ts + 1))) < nat (now - (start ts + w * (curInterval ts + 1)))"
      using True assms by (simp add: algebra_simps)
    from less [OF this] obtain ts' new where ts':
      "updateIntervals_loop lp md w now ?ts = Some ts'" "start ts' = start ?ts"
      "curInterval ?ts \<le> curInterval ts'"
      "intervals ts' = intervals ?ts @ new"
      "int (length new) = curInterval ts' - curInterval ?ts"
      "\<forall>iv\<in>set new. latNano iv = [] \<and> slowdowns iv = 0 \<and> bytes iv = 0"
      by blast
    have "updateIntervals_loop lp md w now ts = Some ts'"
      by (subst updateIntervals_loop.simps) (use True ts'(1) in simp)
    moreover have "intervals ts' = intervals ts @ (?iv # new)" using ts'(4) by simp
    moreover have "int (length (?iv # new)) = curInterval ts' - curInterval ts" using ts'(5) by simp
    moreover have "\<forall>iv\<in>set (?iv # new). latNano iv = [] \<and> slowdowns iv = 0 \<and> bytes iv = 0"
      using ts'(6) by simp
    ultimately show ?thesis using ts'(2,3) by (intro exI [of _ ts'] exI [of _ "?iv # new"]) simp
  qed
qed

lemma ThreadStats_updateIntervals_positive:
  assumes "0 < w"
  shows "\<exists>ts' new. ThreadStats_updateIntervals lp md w now ts = Some (ts', curInterval ts')
     \<and> start ts' = start ts \<and> curInterval ts \<le> curInterval ts'
     \<and> intervals ts' = intervals ts @ new
     \<and> int (length new) = curInterval ts' - curInterval ts
     \<and> (\<forall>iv\<in>set new. latNano iv = [] \<and> slowdowns iv = 0 \<and> bytes iv = 0)"
  using updateIntervals_loop_positive [OF assms, of lp md now ts] assms
  by (auto simp: ThreadStats_updateIntervals_def)

lemma forEach_indexed_Inr:
  assumes "\<And>y a. y \<in> set ys \<Longrightarrow> h y a = Inr (g y a)"
  shows "forEach [0..int (length ys) - 1] (\<lambda>t acc. bindP (index ys t) (\<lambda>y. h y acc)) acc = Inr (fold g ys acc)"
  by (simp add: forEach_indexed forEach_Inr assms)

lemma Stats_intervalRecord_ok:
  assumes "threads s = int (length (threadStats s))"
    and "\<forall>ts\<in>set (threadStats s). 0 \<le> i \<and> i < int (length (intervals ts))"
  shows "\<exists>r. Stats_intervalRecord s i = Inr r"
proof -
  have c: "forEach [0..int (length (threadStats s)) - 1]
              (\<lambda>t (b, ops, sl).
                 bindP (index (threadStats s) t) (\<lambda>ts.
                 bindP (index (intervals ts) i) (\<lambda>iv.
                 Inr (b + bytes iv, ops + int (length (latNano iv)), sl + slowdowns iv))))
              (0, 0, 0)
        = Inr (fold (\<lambda>ts (b, ops, sl). (b + bytes (intervals ts ! nat i),
                 ops + int (length (latNano (intervals ts ! nat i))),
                 sl + slowdowns (intervals ts ! nat i))) (threadStats s) (0, 0, 0))"
  proof -
    have "forEach [0..int (length (threadStats s)) - 1]
              (\<lambda>t (b, ops, sl).
                 bindP (index (threadStats s) t) (\<lambda>ts.
                 bindP (index (intervals ts) i) (\<lambda>iv.
                 Inr (b + bytes iv, ops + int (length (latNano iv)), sl + slowdowns iv))))
              (0, 0, 0)
       = forEach [0..int (length (threadStats s)) - 1]
              (\<lambda>t acc.
                 bindP (index (threadStats s) t) (\<lambda>ts. (\<lambda>ts (b, ops, sl).
                 bindP (index (intervals ts) i) (\<lambda>iv.
                 Inr (b + bytes iv, ops + int (length (latNano iv)), sl + slowdowns iv))) ts acc))
              (0, 0, 0)"
      by (rule forEach_cong) (simp add: split_def)
    also have "\<dots> = Inr (fold (\<lambda>ts (b, ops, sl). (b + bytes (intervals ts ! nat i),
                 ops + int (length (latNano (intervals ts ! nat i))),
                 sl + slowdowns (intervals ts ! nat i))) (threadStats s) (0, 0, 0))"
      by (rule forEach_indexed_Inr) (use assms(2) in \<open>simp add: split_def\<close>)
    finally show ?thesis .
  qed
  have l: "forEach [0..int (length (threadStats s)) - 1]
              (\<lambda>t tmpLat.
                 bindP (index (threadStats s) t) (\<lambda>ts.
                 bindP (index (intervals ts) i) (\<lambda>iv.
                 Inr (tmpLat @ latNano iv))))
              []
        = Inr (fold (\<lambda>ts tmpLat. tmpLat @ latNano (intervals ts ! nat i)) (threadStats s) [])"
    by (rule forEach_indexed_Inr) (use assms(2) in simp)
  show ?thesis
    unfolding Stats_intervalRecord_def assms(1)
    by (simp only: c l bindP_Inr) (simp add: split_def)
qed

lemma passedBy_Nil [simp]: "passedBy [] i = 0"
  by (simp add: passedBy_def)

lemma passedBy_Cons [simp]: "passedBy (m # marks) i = (if i < m then 1 else 0) + passedBy marks i"
  by (simp add: passedBy_def)

lemma passedBy_append [simp]: "passedBy (marks @ ms) i = passedBy marks i + passedBy ms i"
  by (induction marks) simp_all

lemma passedBy_bounds: "0 \<le> passedBy marks i" "passedBy marks i \<le> int (length marks)"
  by (induction marks) simp_all

lemma passedBy_update:
  "t < length marks \<Longrightarrow>
   passedBy (marks[t := m]) i = passedBy marks i - (if i < marks ! t then 1 else 0) + (if i < m then 1 else 0)"
proof (induction marks arbitrary: t)
  case Nil
  then show ?case by simp
next
  case (Cons a marks)
  then show ?case by (cases t) simp_all
qed

lemma passedBy_full: "passedBy marks i = int (length marks) \<longleftrightarrow> (\<forall>m\<in>set marks. i < m)"
proof (induction marks)
  case Nil
  show ?case by simp
next
  case (Cons a marks)
  have "passedBy marks i \<le> int (length marks)" by (rule passedBy_bounds)
  then show ?case using Cons by auto
qed

lemma emitted_append [simp]: "emitted (lg @ out) i = emitted lg i + emitted out i"
  by (simp add: emitted_def)

lemma emitted_Nil [simp]: "emitted [] i = 0"
  by (simp add: emitted_def)

lemma emitted_single [simp]: "emitted [(k, os)] i = (if k = i then 1 else 0)"
  by (simp add: emitted_def)

lemma completeInterval_inv:
  assumes inv: "barrier_inv s lg marks" and t: "t < length marks"
    and k: "marks ! t = k" "k < curInterval (threadStats s ! t)"
  shows "\<exists>s' out. completeInterval s k = Inr (s', out)
     \<and> barrier_inv s' (lg @ out) (marks[t := k + 1])
     \<and> threadStats s' = threadStats s"
proof -
  let ?c = "passedBy marks k"
  let ?marks' = "marks[t := k + 1]"
  let ?s1 = "s\<lparr>intervalCompletions := (intervalCompletions s)(k \<mapsto> ?c + 1)\<rparr>"
  from inv have w: "0 < stats_intervalNano s" and n: "0 < threads s"
    and len: "length marks = length (threadStats s)" "int (length marks) \<le> threads s"
    and per: "\<And>j. j < length marks \<Longrightarrow> 0 \<le> marks ! j
         \<and> marks ! j < int (length (intervals (threadStats s ! j)))
         \<and> (0 \<le> curInterval (threadStats s ! j) \<longrightarrow>
               marks ! j \<le> curInterval (threadStats s ! j)
             \<and> int (length (intervals (threadStats s ! j))) = curInterval (threadStats s ! j) + 1)"
    and cmap: "\<And>i. intervalCompletions s i =
         (if 0 \<le> i \<and> 0 < passedBy marks i then Some (passedBy marks i) else None)"
    and em: "\<And>i. emitted lg i = (if 0 \<le> i \<and> passedBy marks i = threads s then 1 else 0)"
    by (simp_all add: barrier_inv_def)
  have k0: "0 \<le> k" using per [OF t] k(1) by simp
  have c0: "0 \<le> ?c" by (rule passedBy_bounds)
  have pb: "\<And>i. passedBy ?marks' i = passedBy marks i + (if i = k then 1 else 0)"
    using t k(1) by (auto simp: passedBy_update)
  have cle: "?c + 1 \<le> int (length marks)"
    using passedBy_bounds(2) [of ?marks' k] pb [of k] by simp
  have cnt: "(case intervalCompletions s k of None \<Rightarrow> 0 | Some c \<Rightarrow> c) + 1 = ?c + 1"
    using c0 k0 by (simp add: cmap)
  have per': "\<And>j. j < length ?marks' \<Longrightarrow> 0 \<le> ?marks' ! j
         \<and> ?marks' ! j < int (length (intervals (threadStats ?s1 ! j)))
         \<and> (0 \<le> curInterval (threadStats ?s1 ! j) \<longrightarrow>
               ?marks' ! j \<le> curInterval (threadStats ?s1 ! j)
             \<and> int (length (intervals (threadStats ?s1 ! j))) = curInterval (threadStats ?s1 ! j) + 1)"
  proof -
    fix j assume j: "j < length ?marks'"
    then have jl: "j < length marks" by simp
    show "0 \<le> ?marks' ! j
         \<and> ?marks' ! j < int (length (intervals (threadStats ?s1 ! j)))
         \<and> (0 \<le> curInterval (threadStats ?s1 ! j) \<longrightarrow>
               ?marks' ! j \<le> curInterval (threadStats ?s1 ! j)
             \<and> int (length (intervals (threadStats ?s1 ! j))) = curInterval (threadStats ?s1 ! j) + 1)"
    proof (cases "j = t")
      case True
      then show ?thesis using per [OF jl] k k0 t by simp
    next
      case False
      then show ?thesis using per [OF jl] jl by simp
    qed
  qed
  have cmap': "\<And>i. intervalCompletions ?s1 i =
         (if 0 \<le> i \<and> 0 < passedBy ?marks' i then Some (passedBy ?marks' i) else None)"
    using c0 k0 by (auto simp: cmap pb)
  show ?thesis
  proof (cases "?c + 1 = threads s")
    case True
    have full: "passedBy ?marks' k = int (length ?marks')"
      using True cle len(2) pb [of k] by simp
    then have all: "\<forall>m\<in>set ?marks'. k < m" by (simp only: passedBy_full)
    have thr: "threads ?s1 = int (length (threadStats ?s1))"
      using True cle len by simp
    have "\<forall>ts\<in>set (threadStats ?s1). 0 \<le> k \<and> k < int (length (intervals ts))"
    proof
      fix ts assume "ts \<in> set (threadStats ?s1)"
      then obtain j where j: "j < length (threadStats s)" "ts = threadStats s ! j"
        by (auto simp: in_set_conv_nth)
      then have jl: "j < length ?marks'" using len by simp
      then have "?marks' ! j \<in> set ?marks'" by (rule nth_mem)
      then have "k < ?marks' ! j" using all by blast
      then show "0 \<le> k \<and> k < int (length (intervals ts))"
        using per' [OF jl] j k0 by simp
    qed
    from Stats_intervalRecord_ok [OF thr this] obtain r where r: "Stats_intervalRecord ?s1 k = Inr r"
      by blast
    obtain os where os: "IntervalStats_makeOutputStats r = Inr os"
      using makeOutputStats_total by blast
    have mk: "Stats_makeOutputStats ?s1 k = Inr (os, True)"
      using w k0 True r os by (simp add: Stats_makeOutputStats_def)
    have ci: "completeInterval s k = Inr (?s1, [(k, os)])"
      unfolding completeInterval_def Let_def cnt using True mk by simp
    have em': "\<And>i. emitted (lg @ [(k, os)]) i = (if 0 \<le> i \<and> passedBy ?marks' i = threads ?s1 then 1 else 0)"
      using True k0 by (auto simp: em pb)
    have "barrier_inv ?s1 (lg @ [(k, os)]) ?marks'"
      unfolding barrier_inv_def using w n len per' cmap' em' by simp
    then show ?thesis using ci by simp
  next
    case False
    have ci: "completeInterval s k = Inr (?s1, [])"
      unfolding completeInterval_def Let_def cnt using False by simp
    have em': "\<And>i. emitted (lg @ []) i = (if 0 \<le> i \<and> passedBy ?marks' i = threads ?s1 then 1 else 0)"
      using False cle len(2) by (auto simp: em pb)
    have "barrier_inv ?s1 (lg @ []) ?marks'"
      unfolding barrier_inv_def using w n len per' cmap' em' by simp
    then show ?thesis using ci by simp
  qed
qed

lemma forEach_preserves:
  assumes "\<And>x a a'. body x a = Inr a' \<Longrightarrow> P a \<Longrightarrow> P a'"
  shows "forEach xs body a = Inr a' \<Longrightarrow> P a \<Longrightarrow> P a'"
proof (induction xs arbitrary: a)
  case Nil
  then show ?case by simp
next
  case (Cons x xs)
  from Cons.prems(1) obtain a1 where a1: "body x a = Inr a1" "forEach xs body a1 = Inr a'"
    by (auto simp: bindP_Inr_iff)
  from assms [OF a1(1) Cons.prems(2)] have "P a1" .
  from Cons.IH [OF a1(2) this] show ?case .
qed

lemma completeInterval_fields:
  assumes "completeInterval s i = Inr (s', out)"
  shows "sameConfig s s'"
  using assms
  by (auto simp: completeInterval_def Let_def bindP_Inr_iff sameConfig_def split: if_splits)

lemma advance_loop_fields:
  assumes "forEach xs (\<lambda>i (s, lg). bindP (completeInterval s i) (\<lambda>(s', out). Inr (s', lg @ out))) (s, acc)
          = Inr (s', acc')"
  shows "sameConfig s s'"
proof -
  have "(\<lambda>(s1, _). sameConfig s s1) (s', acc')"
  proof (rule forEach_preserves [OF _ assms, where P = "\<lambda>(s1, _). sameConfig s s1"])
    fix x :: int and a a' :: "Stats \<times> logged"
    assume b: "(case a of (s, lg) \<Rightarrow> bindP (completeInterval s x) (\<lambda>(s', out). Inr (s', lg @ out))) = Inr a'"
      and p: "case a of (s1, _) \<Rightarrow> sameConfig s s1"
    obtain s1 l1 where a: "a = (s1, l1)" by (cases a)
    obtain s2 l2 where a': "a' = (s2, l2)" by (cases a')
    from b a a' obtain out where "completeInterval s1 x = Inr (s2, out)"
      by (auto simp: bindP_Inr_iff)
    from completeInterval_fields [OF this] p a a'
    show "case a' of (s1, _) \<Rightarrow> sameConfig s s1"
      by (simp add: sameConfig_def)
  qed (simp add: sameConfig_def)
  then show ?thesis by simp
qed

lemma advance_loop_inv:
  assumes "barrier_inv s (lg @ acc) marks" "t < length marks" "marks ! t = a"
    "b \<le> curInterval (threadStats s ! t)" "a \<le> b"
  shows "\<exists>s' acc'. forEach [a..b - 1]
            (\<lambda>i (s, lg). bindP (completeInterval s i) (\<lambda>(s', out). Inr (s', lg @ out))) (s, acc)
          = Inr (s', acc')
     \<and> barrier_inv s' (lg @ acc') (marks[t := b]) \<and> threadStats s' = threadStats s"
  using assms
proof (induction "nat (b - a)" arbitrary: a s acc marks)
  case 0
  then have "a = b" by simp
  then show ?case using "0.prems" by (auto simp: list_update_same_conv)
next
  case (Suc n)
  then have ab: "a < b" by simp
  have up: "[a..b - 1] = a # [a + 1..b - 1]"
    using ab by (simp add: upto_rec1)
  have "a < curInterval (threadStats s ! t)" using ab Suc.prems(4) by simp
  from completeInterval_inv [OF Suc.prems(1,2,3) this]
  obtain s1 out1 where s1: "completeInterval s a = Inr (s1, out1)"
    "barrier_inv s1 ((lg @ acc) @ out1) (marks[t := a + 1])" "threadStats s1 = threadStats s"
    by blast
  have n: "n = nat (b - (a + 1))" using Suc.hyps(2) by simp
  have inv1: "barrier_inv s1 (lg @ (acc @ out1)) (marks[t := a + 1])" using s1(2) by simp
  have "\<exists>s' acc'. forEach [a + 1..b - 1]
            (\<lambda>i (s, lg). bindP (completeInterval s i) (\<lambda>(s', out). Inr (s', lg @ out))) (s1, acc @ out1)
          = Inr (s', acc')
     \<and> barrier_inv s' (lg @ acc') ((marks[t := a + 1])[t := b]) \<and> threadStats s' = threadStats s1"
    by (rule Suc.hyps(1) [OF n inv1]) (use Suc.prems ab s1(3) in simp_all)
  then show ?case by (simp add: up s1(1) s1(3))
qed



lemma Stats_updateIntervals_inv:
  assumes inv: "barrier_inv s lg marks"
    and t: "0 \<le> t" "t < int (length (threadStats s))"
    and act: "marks ! nat t = curInterval (threadStats s ! nat t)"
  shows "\<exists>s' ts' new out. Stats_updateIntervals s t now = Some (Inr (s', curInterval ts', out))
     \<and> threadStats s' = (threadStats s)[nat t := ts']
     \<and> barrier_inv s' (lg @ out) (marks[nat t := curInterval ts'])
     \<and> 0 \<le> curInterval ts' \<and> curInterval (threadStats s ! nat t) \<le> curInterval ts'
     \<and> intervals ts' = intervals (threadStats s ! nat t) @ new
     \<and> (\<forall>iv\<in>set new. latNano iv = [] \<and> slowdowns iv = 0 \<and> bytes iv = 0)
     \<and> sameConfig s s'"
proof -
  let ?ts = "threadStats s ! nat t"
  have tn: "nat t < length (threadStats s)" using t by simp
  from inv have w: "0 < stats_intervalNano s" and lm: "length marks = length (threadStats s)"
    by (simp_all add: barrier_inv_def)
  from inv tn lm act have cur0: "0 \<le> curInterval ?ts"
    by (auto simp: barrier_inv_def)
  from inv tn lm cur0 have len0: "int (length (intervals ?ts)) = curInterval ?ts + 1"
    by (auto simp: barrier_inv_def)
  from ThreadStats_updateIntervals_positive [OF w, of "stats_loop s" "stats_mode s" now ?ts]
  obtain ts' new where ts': "ThreadStats_updateIntervals (stats_loop s) (stats_mode s) (stats_intervalNano s) now ?ts
       = Some (ts', curInterval ts')"
    "curInterval ?ts \<le> curInterval ts'"
    "intervals ts' = intervals ?ts @ new"
    "int (length new) = curInterval ts' - curInterval ?ts"
    "\<forall>iv\<in>set new. latNano iv = [] \<and> slowdowns iv = 0 \<and> bytes iv = 0"
    by blast
  have len': "int (length (intervals ts')) = curInterval ts' + 1"
    using ts'(3,4) len0 by simp
  let ?s1 = "s\<lparr>threadStats := (threadStats s)[nat t := ts']\<rparr>"
  have inv1: "barrier_inv ?s1 (lg @ []) marks"
    unfolding barrier_inv_def
  proof (intro conjI allI impI)
    fix j assume j: "j < length marks"
    show "0 \<le> marks ! j" using inv j by (simp add: barrier_inv_def)
    show "marks ! j < int (length (intervals (threadStats ?s1 ! j)))"
      using inv j lm act len' ts'(2) by (cases "j = nat t") (simp_all add: barrier_inv_def)
    assume c: "0 \<le> curInterval (threadStats ?s1 ! j)"
    show "marks ! j \<le> curInterval (threadStats ?s1 ! j)"
      using inv j lm act ts'(2) c by (cases "j = nat t") (simp_all add: barrier_inv_def)
    show "int (length (intervals (threadStats ?s1 ! j))) = curInterval (threadStats ?s1 ! j) + 1"
      using inv j lm len' c by (cases "j = nat t") (simp_all add: barrier_inv_def)
  qed (use inv in \<open>simp_all add: barrier_inv_def\<close>)
  have "\<exists>s' acc'. forEach [curInterval ?ts..curInterval ts' - 1]
            (\<lambda>i (s, lg). bindP (completeInterval s i) (\<lambda>(s', out). Inr (s', lg @ out))) (?s1, [])
          = Inr (s', acc')
     \<and> barrier_inv s' (lg @ acc') (marks[nat t := curInterval ts']) \<and> threadStats s' = threadStats ?s1"
    by (rule advance_loop_inv [OF inv1]) (use tn lm act ts'(2) in simp_all)
  then obtain s' out where s': "forEach [curInterval ?ts..curInterval ts' - 1]
            (\<lambda>i (s, lg). bindP (completeInterval s i) (\<lambda>(s', out). Inr (s', lg @ out))) (?s1, [])
          = Inr (s', out)"
    "barrier_inv s' (lg @ out) (marks[nat t := curInterval ts'])" "threadStats s' = threadStats ?s1"
    by blast
  have res: "Stats_updateIntervals s t now = Some (Inr (s', curInterval ts', out))"
    unfolding Stats_updateIntervals_def using t cur0 by (simp add: bindD_def ts'(1) s'(1))
  have "sameConfig ?s1 s'" by (rule advance_loop_fields [OF s'(1)])
  then have sc: "sameConfig s s'" by (simp add: sameConfig_def)
  have c': "0 \<le> curInterval ts'" using cur0 ts'(2) by simp
  show ?thesis
    using res s'(2,3) c' ts'(2,3,5) sc by (intro exI [of _ s'] exI [of _ ts'] exI [of _ new] exI [of _ out]) simp
qed

lemma barrier_inv_ledger_update:
  assumes inv: "barrier_inv s lg marks" and j0: "j0 < length (threadStats s)"
    and c: "curInterval ts' = curInterval (threadStats s ! j0)"
    and l: "length (intervals ts') = length (intervals (threadStats s ! j0))"
  shows "barrier_inv (s\<lparr>threadStats := (threadStats s)[j0 := ts']\<rparr>) lg marks"
  unfolding barrier_inv_def
proof (intro conjI allI impI)
  let ?s1 = "s\<lparr>threadStats := (threadStats s)[j0 := ts']\<rparr>"
  from inv have lm: "length marks = length (threadStats s)" by (simp add: barrier_inv_def)
  fix j assume j: "j < length marks"
  show "0 \<le> marks ! j" using inv j by (simp add: barrier_inv_def)
  show "marks ! j < int (length (intervals (threadStats ?s1 ! j)))"
    using inv j lm c l by (cases "j = j0") (simp_all add: barrier_inv_def)
  assume c0: "0 \<le> curInterval (threadStats ?s1 ! j)"
  show "marks ! j \<le> curInterval (threadStats ?s1 ! j)"
    using inv j lm c l c0 by (cases "j = j0") (simp_all add: barrier_inv_def)
  show "int (length (intervals (threadStats ?s1 ! j))) = curInterval (threadStats ?s1 ! j) + 1"
    using inv j lm c l c0 by (cases "j = j0") (simp_all add: barrier_inv_def)
qed (use inv in \<open>simp_all add: barrier_inv_def\<close>)

lemma sum_list_map_update:
  "k < length xs \<Longrightarrow> (\<Sum>x\<leftarrow>xs[k := y]. (f x :: int)) = (\<Sum>x\<leftarrow>xs. f x) - f (xs ! k) + f y"
proof (induction xs arbitrary: k)
  case Nil
  then show ?case by simp
next
  case (Cons a xs)
  then show ?case by (cases k) simp_all
qed

lemma Stats_addOp_inv:
  assumes inv: "barrier_inv s lg marks"
    and t: "0 \<le> t" "t < int (length (threadStats s))"
    and cur0: "0 \<le> curInterval (threadStats s ! nat t)"
  shows "\<exists>s' ts'. Stats_addOp s t b l = Inr s'
     \<and> threadStats s' = (threadStats s)[nat t := ts']
     \<and> barrier_inv s' lg marks
     \<and> curInterval ts' = curInterval (threadStats s ! nat t)
     \<and> ledgerOps ts' = ledgerOps (threadStats s ! nat t) + 1
     \<and> ledgerSlowdowns ts' = ledgerSlowdowns (threadStats s ! nat t)
     \<and> sameConfig s s'"
proof -
  let ?ts = "threadStats s ! nat t"
  let ?cur = "curInterval ?ts"
  let ?iv = "intervals ?ts ! nat ?cur"
  let ?ts' = "?ts\<lparr>intervals := (intervals ?ts)[nat ?cur :=
                   ?iv\<lparr>bytes := bytes ?iv + b, latNano := latNano ?iv @ [l]\<rparr>]\<rparr>"
  let ?s' = "s\<lparr>threadStats := (threadStats s)[nat t := ?ts']\<rparr>"
  have tn: "nat t < length (threadStats s)" using t by simp
  from inv have lm: "length marks = length (threadStats s)" by (simp add: barrier_inv_def)
  from inv tn lm cur0 have len0: "int (length (intervals ?ts)) = ?cur + 1"
    by (auto simp: barrier_inv_def)
  then have cl: "nat ?cur < length (intervals ?ts)" using cur0 by linarith
  have res: "Stats_addOp s t b l = Inr ?s'"
    using t cur0 len0 by (simp add: Stats_addOp_def Let_def)
  have inv': "barrier_inv ?s' lg marks"
    by (rule barrier_inv_ledger_update [OF inv tn]) simp_all
  have ops: "ledgerOps ?ts' = ledgerOps ?ts + 1"
    using cl by (simp add: ledgerOps_def sum_list_map_update)
  have sl: "ledgerSlowdowns ?ts' = ledgerSlowdowns ?ts"
    using cl by (simp add: ledgerSlowdowns_def sum_list_map_update)
  show ?thesis
    using res inv' ops sl by (intro exI [of _ ?s'] exI [of _ ?ts']) (simp add: sameConfig_def)
qed

lemma Stats_addSlowDown_inv:
  assumes inv: "barrier_inv s lg marks"
    and t: "0 \<le> t" "t < int (length (threadStats s))"
    and cur0: "0 \<le> curInterval (threadStats s ! nat t)"
  shows "\<exists>s' ts'. Stats_addSlowDown s t = Inr s'
     \<and> threadStats s' = (threadStats s)[nat t := ts']
     \<and> barrier_inv s' lg marks
     \<and> curInterval ts' = curInterval (threadStats s ! nat t)
     \<and> ledgerOps ts' = ledgerOps (threadStats s ! nat t)
     \<and> ledgerSlowdowns ts' = ledgerSlowdowns (threadStats s ! nat t) + 1
     \<and> sameConfig s s'"
proof -
  let ?ts = "threadStats s ! nat t"
  let ?cur = "curInterval ?ts"
  let ?iv = "intervals ?ts ! nat ?cur"
  let ?ts' = "?ts\<lparr>intervals := (intervals ?ts)[nat ?cur := ?iv\<lparr>slowdowns := slowdowns ?iv + 1\<rparr>]\<rparr>"
  let ?s' = "s\<lparr>threadStats := (threadStats s)[nat t := ?ts']\<rparr>"
  have tn: "nat t < length (threadStats s)" using t by simp
  from inv have lm: "length marks = length (threadStats s)" by (simp add: barrier_inv_def)
  from inv tn lm cur0 have len0: "int (length (intervals ?ts)) = ?cur + 1"
    by (auto simp: barrier_inv_def)
  then have cl: "nat ?cur < length (intervals ?ts)" using cur0 by linarith
  have res: "Stats_addSlowDown s t = Inr ?s'"
    using t cur0 len0 by (simp add: Stats_addSlowDown_def Let_def)
  have inv': "barrier_inv ?s' lg marks"
    by (rule barrier_inv_ledger_update [OF inv tn]) simp_all
  have ops: "ledgerOps ?ts' = ledgerOps ?ts"
    using cl by (simp add: ledgerOps_def sum_list_map_update)
  have sl: "ledgerSlowdowns ?ts' = ledgerSlowdowns ?ts + 1"
    using cl by (simp add: ledgerSlowdowns_def sum_list_map_update)
  show ?thesis
    using res inv' ops sl by (intro exI [of _ ?s'] exI [of _ ?ts']) (simp add: sameConfig_def)
qed


lemma ledger_append_empty:
  assumes "intervals ts' = intervals ts @ new"
    and "\<forall>iv\<in>set new. latNano iv = [] \<and> slowdowns iv = 0 \<and> bytes iv = 0"
  shows "ledgerOps ts' = ledgerOps ts" "ledgerSlowdowns ts' = ledgerSlowdowns ts"
proof -
  have "(\<Sum>iv\<leftarrow>new. int (length (latNano iv))) = 0" "(\<Sum>iv\<leftarrow>new. slowdowns iv) = 0"
    using assms(2) by (induction new) simp_all
  then show "ledgerOps ts' = ledgerOps ts" "ledgerSlowdowns ts' = ledgerSlowdowns ts"
    by (simp_all add: ledgerOps_def ledgerSlowdowns_def assms(1))
qed

lemma Stats_updateIntervals_inv_cur:
  assumes inv: "barrier_inv s lg (map curInterval (threadStats s))"
    and t: "0 \<le> t" "t < int (length (threadStats s))"
  shows "\<exists>s' out. Stats_updateIntervals s t now = Some (Inr (s', curInterval (threadStats s' ! nat t), out))
     \<and> barrier_inv s' (lg @ out) (map curInterval (threadStats s'))
     \<and> length (threadStats s') = length (threadStats s)
     \<and> (\<forall>j < length (threadStats s).
           ledgerOps (threadStats s' ! j) = ledgerOps (threadStats s ! j)
         \<and> ledgerSlowdowns (threadStats s' ! j) = ledgerSlowdowns (threadStats s ! j))
     \<and> sameConfig s s'"
proof -
  have tn: "nat t < length (threadStats s)" using t by simp
  then have act: "map curInterval (threadStats s) ! nat t = curInterval (threadStats s ! nat t)"
    by simp
  from Stats_updateIntervals_inv [OF inv t act, of now]
  obtain s' ts' new out where r:
    "Stats_updateIntervals s t now = Some (Inr (s', curInterval ts', out))"
    "threadStats s' = (threadStats s)[nat t := ts']"
    "barrier_inv s' (lg @ out) ((map curInterval (threadStats s))[nat t := curInterval ts'])"
    "intervals ts' = intervals (threadStats s ! nat t) @ new"
    "\<forall>iv\<in>set new. latNano iv = [] \<and> slowdowns iv = 0 \<and> bytes iv = 0"
    "sameConfig s s'"
    by blast
  have m: "(map curInterval (threadStats s))[nat t := curInterval ts'] = map curInterval (threadStats s')"
    by (simp add: r(2) map_update)
  have led: "\<forall>j < length (threadStats s).
           ledgerOps (threadStats s' ! j) = ledgerOps (threadStats s ! j)
         \<and> ledgerSlowdowns (threadStats s' ! j) = ledgerSlowdowns (threadStats s ! j)"
    using ledger_append_empty [OF r(4,5)] tn by (auto simp: r(2) nth_list_update)
  show ?thesis
    using r(1,3,6) m led tn by (intro exI [of _ s'] exI [of _ out]) (simp add: r(2))
qed

lemma append_thread_inv:
  assumes inv: "barrier_inv s lg (map curInterval (threadStats s))"
    and lt: "int (length (threadStats s)) < threads s"
  shows "barrier_inv (s\<lparr>threadStats := threadStats s @ [makeThreadStats a lp md w]\<rparr>) lg
           (map curInterval (threadStats (s\<lparr>threadStats := threadStats s @ [makeThreadStats a lp md w]\<rparr>)))"
proof -
  let ?s = "s\<lparr>threadStats := threadStats s @ [makeThreadStats a lp md w]\<rparr>"
  let ?marks = "map curInterval (threadStats s)"
  have m: "map curInterval (threadStats ?s) = ?marks @ [0]"
    by (simp add: makeThreadStats_def)
  have pb: "\<And>i. 0 \<le> i \<Longrightarrow> passedBy (?marks @ [0]) i = passedBy ?marks i"
    by simp
  show ?thesis
    unfolding m barrier_inv_def
  proof (intro conjI allI impI)
    fix j assume j: "j < length (?marks @ [0])"
    show "0 \<le> (?marks @ [0]) ! j"
      using inv j by (cases "j = length (threadStats s)") (simp_all add: barrier_inv_def nth_append)
    show "(?marks @ [0]) ! j < int (length (intervals (threadStats ?s ! j)))"
      using inv j by (cases "j = length (threadStats s)") (simp_all add: barrier_inv_def nth_append makeThreadStats_def)
    assume c: "0 \<le> curInterval (threadStats ?s ! j)"
    show "(?marks @ [0]) ! j \<le> curInterval (threadStats ?s ! j)"
      using inv j by (cases "j = length (threadStats s)") (simp_all add: barrier_inv_def nth_append makeThreadStats_def)
    show "int (length (intervals (threadStats ?s ! j))) = curInterval (threadStats ?s ! j) + 1"
      using inv j c by (cases "j = length (threadStats s)") (simp_all add: barrier_inv_def nth_append makeThreadStats_def)
  next
    fix i
    show "intervalCompletions ?s i = (if 0 \<le> i \<and> 0 < passedBy (?marks @ [0]) i
            then Some (passedBy (?marks @ [0]) i) else None)"
      using inv by (cases "0 \<le> i") (simp_all add: barrier_inv_def)
    show "emitted lg i = (if 0 \<le> i \<and> passedBy (?marks @ [0]) i = threads ?s then 1 else 0)"
      using inv by (cases "0 \<le> i") (simp_all add: barrier_inv_def)
  qed (use inv lt in \<open>simp_all add: barrier_inv_def\<close>)
qed

lemma makeStats_loop_inv:
  assumes "barrier_inv s lg (map curInterval (threadStats s))"
    and "int (length (threadStats s)) = k" "k \<le> n" "threads s = n"
    and "\<forall>ts\<in>set (threadStats s). ledgerOps ts = 0 \<and> ledgerSlowdowns ts = 0"
  shows "\<exists>s' lg'. forEachD [k..n - 1]
       (\<lambda>i (s, lg).
          bindD (Stats_updateIntervals
                   (s\<lparr>threadStats := threadStats s @
                        [makeThreadStats now0 (stats_loop s) (stats_mode s) (stats_intervalNano s)]\<rparr>)
                   i (clk i))
            (\<lambda>(s', _, out). Some (Inr (s', lg @ out)))) (s, lg) = Some (Inr (s', lg'))
     \<and> barrier_inv s' lg' (map curInterval (threadStats s'))
     \<and> int (length (threadStats s')) = n \<and> sameConfig s s'
     \<and> (\<forall>ts\<in>set (threadStats s'). ledgerOps ts = 0 \<and> ledgerSlowdowns ts = 0)"
  using assms
proof (induction "nat (n - k)" arbitrary: k s lg)
  case 0
  then have "k = n" by simp
  then show ?case using "0.prems" by (simp add: sameConfig_def)
next
  case (Suc m)
  then have kn: "k < n" by simp
  have up: "[k..n - 1] = k # [k + 1..n - 1]" using kn by (simp add: upto_rec1)
  let ?sa = "s\<lparr>threadStats := threadStats s @
                [makeThreadStats now0 (stats_loop s) (stats_mode s) (stats_intervalNano s)]\<rparr>"
  have inva: "barrier_inv ?sa lg (map curInterval (threadStats ?sa))"
    by (rule append_thread_inv [OF Suc.prems(1)]) (use Suc.prems kn in simp)
  have za: "\<forall>ts\<in>set (threadStats ?sa). ledgerOps ts = 0 \<and> ledgerSlowdowns ts = 0"
    using Suc.prems(5) by (simp add: makeThreadStats_def ledgerOps_def ledgerSlowdowns_def)
  have k0: "0 \<le> k" using Suc.prems(2) by auto
  have "k < int (length (threadStats ?sa))" using Suc.prems(2) by auto
  from Stats_updateIntervals_inv_cur [OF inva k0 this, of "clk k"]
  obtain s1 out where s1:
    "Stats_updateIntervals ?sa k (clk k) = Some (Inr (s1, curInterval (threadStats s1 ! nat k), out))"
    "barrier_inv s1 (lg @ out) (map curInterval (threadStats s1))"
    "length (threadStats s1) = length (threadStats ?sa)"
    "\<forall>j < length (threadStats ?sa).
           ledgerOps (threadStats s1 ! j) = ledgerOps (threadStats ?sa ! j)
         \<and> ledgerSlowdowns (threadStats s1 ! j) = ledgerSlowdowns (threadStats ?sa ! j)"
    "sameConfig ?sa s1"
    by blast
  have z1: "\<forall>ts\<in>set (threadStats s1). ledgerOps ts = 0 \<and> ledgerSlowdowns ts = 0"
  proof
    fix ts assume "ts \<in> set (threadStats s1)"
    then obtain j where j: "j < length (threadStats s1)" "ts = threadStats s1 ! j"
      by (auto simp: in_set_conv_nth)
    then have "threadStats ?sa ! j \<in> set (threadStats ?sa)" using s1(3) by (intro nth_mem) simp
    then show "ledgerOps ts = 0 \<and> ledgerSlowdowns ts = 0"
      using za s1(3,4) j by auto
  qed
  have m: "m = nat (n - (k + 1))" using Suc.hyps(2) by simp
  have "\<exists>s' lg'. forEachD [k + 1..n - 1]
       (\<lambda>i (s, lg).
          bindD (Stats_updateIntervals
                   (s\<lparr>threadStats := threadStats s @
                        [makeThreadStats now0 (stats_loop s) (stats_mode s) (stats_intervalNano s)]\<rparr>)
                   i (clk i))
            (\<lambda>(s', _, out). Some (Inr (s', lg @ out)))) (s1, lg @ out) = Some (Inr (s', lg'))
     \<and> barrier_inv s' lg' (map curInterval (threadStats s'))
     \<and> int (length (threadStats s')) = n \<and> sameConfig s1 s'
     \<and> (\<forall>ts\<in>set (threadStats s'). ledgerOps ts = 0 \<and> ledgerSlowdowns ts = 0)"
    by (rule Suc.hyps(1) [OF m s1(2) _ _ _ z1]) (use s1(3,5) Suc.prems kn in \<open>auto simp: sameConfig_def\<close>)
  then show ?case using s1(5) by (auto simp: up s1(1) bindD_def sameConfig_def)
qed

lemma makeStats_inv:
  assumes "0 < w" "0 < n"
  shows "\<exists>s lg. makeStats lp md n w now0 clk = Some (Inr (s, lg))
     \<and> barrier_inv s lg (map curInterval (threadStats s))
     \<and> int (length (threadStats s)) = n \<and> threads s = n \<and> completions s = 0
     \<and> stats_intervalNano s = w \<and> startNano s = now0
     \<and> (\<forall>ts\<in>set (threadStats s). ledgerOps ts = 0 \<and> ledgerSlowdowns ts = 0)"
proof -
  let ?s0 = "\<lparr>threads = n, stats_loop = lp, stats_mode = md, startNano = now0, endNano = 0,
         stats_intervalNano = w, threadStats = [], intervalCompletions = Map.empty,
         completions = 0\<rparr>"
  have inv0: "barrier_inv ?s0 [] (map curInterval (threadStats ?s0))"
    using assms by (simp add: barrier_inv_def)
  from makeStats_loop_inv [OF inv0, of 0 n now0 clk] assms(2)
  show ?thesis unfolding makeStats_def by (auto simp: sameConfig_def)
qed

lemma advanceAll_inv:
  assumes "barrier_inv s lg (map curInterval (threadStats s))"
    and "\<forall>(t, now)\<in>set calls. 0 \<le> t \<and> t < int (length (threadStats s))"
  shows "\<exists>s' lg'. advanceAll calls (s, lg) = Some (Inr (s', lg'))
     \<and> barrier_inv s' lg' (map curInterval (threadStats s'))
     \<and> length (threadStats s') = length (threadStats s) \<and> sameConfig s s'"
  using assms
proof (induction calls arbitrary: s lg)
  case Nil
  then show ?case by (simp add: advanceAll_def sameConfig_def)
next
  case (Cons c calls)
  obtain t now where c: "c = (t, now)" by (cases c)
  have t: "0 \<le> t" "t < int (length (threadStats s))" using Cons.prems(2) c by auto
  from Stats_updateIntervals_inv_cur [OF Cons.prems(1) t, of now]
  obtain s1 out where s1:
    "Stats_updateIntervals s t now = Some (Inr (s1, curInterval (threadStats s1 ! nat t), out))"
    "barrier_inv s1 (lg @ out) (map curInterval (threadStats s1))"
    "length (threadStats s1) = length (threadStats s)" "sameConfig s s1"
    by blast
  have "\<exists>s' lg'. advanceAll calls (s1, lg @ out) = Some (Inr (s', lg'))
     \<and> barrier_inv s' lg' (map curInterval (threadStats s'))
     \<and> length (threadStats s') = length (threadStats s1) \<and> sameConfig s1 s'"
    by (rule Cons.IH [OF s1(2)]) (use Cons.prems(2) s1(3) in auto)
  then show ?case
    using s1(3,4) by (auto simp: advanceAll_def c s1(1) bindD_def sameConfig_def)
qed

lemma completeInterval_step:
  assumes "completeInterval st i = Inr (st', out)"
  shows "countOf st' i = countOf st i + 1 \<and> (countOf st' i \<noteq> threads st \<longrightarrow> out = []) \<and> length out \<le> 1"
  using assms
  by (auto simp: completeInterval_def Let_def countOf_def bindP_Inr_iff split: if_splits)



subsection \<open>The workers\<close>

lemma go_rem_nonneg:
  assumes "0 \<le> a" "b \<noteq> 0"
  shows "\<exists>r. go_rem a b = Inr r \<and> 0 \<le> r \<and> r < \<bar>b\<bar>"
proof (cases "a = 0")
  case True
  then show ?thesis using assms by (simp add: go_rem_def)
next
  case False
  then have "sgn a = 1" using assms(1) by simp
  then show ?thesis using assms by (simp add: go_rem_def)
qed

lemma worker_iter_inv:
  assumes inv: "barrier_inv s lg marks"
    and t: "0 \<le> t" "t < int (length (threadStats s))"
    and act: "marks ! nat t = curInterval (threadStats s ! nat t)"
    and cfg: "config_ok kind g" "- 1 \<le> op_counter g"
    and e2: "errcnt \<le> 2"
  shows "\<exists>ex errcnt' g' s' lg' ts'.
       worker_iter kind t ob errcnt (g, s, lg) = Some (Inr (ex, errcnt', (g', s', lg')))
     \<and> threadStats s' = (threadStats s)[nat t := ts']
     \<and> barrier_inv s' lg' (marks[nat t := curInterval ts'])
     \<and> 0 \<le> curInterval ts'
     \<and> sameConfig s s'
     \<and> g' = g\<lparr>op_counter := op_counter g'\<rparr> \<and> - 1 \<le> op_counter g'
     \<and> errcnt' - errcnt = ledgerSlowdowns ts' - ledgerSlowdowns (threadStats s ! nat t)
     \<and> errcnt \<le> errcnt' \<and> errcnt' \<le> errcnt + 1
     \<and> (ex = Some ErrLimit \<longleftrightarrow> 2 < errcnt')
     \<and> (ex = None \<longrightarrow> errcnt' \<le> 2)
     \<and> (kind = Put \<and> object_count g < 0 \<longrightarrow>
          op_counter g' - op_counter g = ledgerOps ts' - ledgerOps (threadStats s ! nat t))
     \<and> (duration_secs g > - 1 \<and> o_now ob > endtime g \<longrightarrow> ex \<noteq> None)"
proof -
  let ?ts = "threadStats s ! nat t"
  have tn: "nat t < length (threadStats s)" using t by simp
  from inv have lm: "length marks = length (threadStats s)" by (simp add: barrier_inv_def)
  from inv tn lm act have cur0: "0 \<le> curInterval ?ts" by (auto simp: barrier_inv_def)
  have same: "(threadStats s)[nat t := ?ts] = threadStats s" by simp
  have marks_same: "marks[nat t := curInterval ?ts] = marks"
    using list_update_id [of marks "nat t"] act by simp
  show ?thesis
  proof (cases "duration_secs g > - 1 \<and> o_now ob > endtime g")
    case True
    then have "worker_iter kind t ob errcnt (g, s, lg) = Some (Inr (Some Expired, errcnt, (g, s, lg)))"
      by (simp add: worker_iter_def)
    then show ?thesis
      using inv cur0 cfg(2) e2 same marks_same
      by (intro exI [of _ "Some Expired"] exI [of _ errcnt] exI [of _ g] exI [of _ s] exI [of _ lg] exI [of _ ?ts])
         (simp add: sameConfig_def)
  next
    case False
    let ?o0 = "op_counter g + 1"
    let ?g1 = "g\<lparr>op_counter := ?o0\<rparr>"
    have o0: "0 \<le> ?o0" using cfg(2) by simp
    have bc: "bucket_count g \<noteq> 0" "0 < bucket_count g" using cfg(1) by (simp_all add: config_ok_def)
    have "\<exists>objnum. (case kind of
                 Put \<Rightarrow> bindP (go_rem ?o0 (bucket_count ?g1)) (\<lambda>_. Inr ?o0)
               | Get \<Rightarrow> if loop_objects ?g1 \<and> duration_secs ?g1 > - 1
                        then go_rem ?o0 (object_count ?g1) else Inr ?o0
               | Del \<Rightarrow> Inr ?o0) = Inr objnum \<and> 0 \<le> objnum
           \<and> (kind = Put \<longrightarrow> objnum = ?o0)"
    proof (cases kind)
      case Put
      then show ?thesis using go_rem_nonneg [OF o0 bc(1)] o0 by auto
    next
      case Get
      show ?thesis
      proof (cases "loop_objects g \<and> duration_secs g > - 1")
        case True
        then have "object_count g \<noteq> 0" using cfg(1) Get by (simp add: config_ok_def)
        from go_rem_nonneg [OF o0 this] show ?thesis using Get True by auto
      next
        case False
        then show ?thesis using Get o0 by auto
      qed
    next
      case Del
      then show ?thesis using o0 by simp
    qed
    then obtain objnum where objnum: "(case kind of
                 Put \<Rightarrow> bindP (go_rem ?o0 (bucket_count ?g1)) (\<lambda>_. Inr ?o0)
               | Get \<Rightarrow> if loop_objects ?g1 \<and> duration_secs ?g1 > - 1
                        then go_rem ?o0 (object_count ?g1) else Inr ?o0
               | Del \<Rightarrow> Inr ?o0) = Inr objnum" "0 \<le> objnum" "kind = Put \<longrightarrow> objnum = ?o0"
      by blast
    show ?thesis
    proof (cases "object_count g > - 1 \<and> objnum \<ge> object_count g")
      case True
      have "worker_iter kind t ob errcnt (g, s, lg)
          = Some (Inr (Some Exhausted, errcnt, (?g1\<lparr>op_counter := op_counter ?g1 - 1\<rparr>, s, lg)))"
        using False True objnum(1) by (simp add: worker_iter_def Let_def bindD_def)
      then show ?thesis
        using inv cur0 cfg(2) e2 same marks_same True False
        by (intro exI [of _ "Some Exhausted"] exI [of _ errcnt] exI [of _ "?g1\<lparr>op_counter := op_counter ?g1 - 1\<rparr>"]
              exI [of _ s] exI [of _ lg] exI [of _ ?ts])
           (simp add: sameConfig_def)
    next
      case nx: False
      from go_rem_nonneg [OF objnum(2) bc(1)] obtain bn where
        bn: "go_rem objnum (bucket_count g) = Inr bn" "0 \<le> bn" "bn < \<bar>bucket_count g\<bar>" by blast
      have ix: "index (buckets g) bn = Inr (buckets g ! nat bn)"
        using bn(2,3) bc(2) cfg(1) by (simp add: config_ok_def)
      from Stats_updateIntervals_inv [OF inv t act, of "o_tick ob"]
      obtain s1 ts1 new out where u:
        "Stats_updateIntervals s t (o_tick ob) = Some (Inr (s1, curInterval ts1, out))"
        "threadStats s1 = (threadStats s)[nat t := ts1]"
        "barrier_inv s1 (lg @ out) (marks[nat t := curInterval ts1])"
        "0 \<le> curInterval ts1"
        "intervals ts1 = intervals ?ts @ new"
        "\<forall>iv\<in>set new. latNano iv = [] \<and> slowdowns iv = 0 \<and> bytes iv = 0"
        "sameConfig s s1"
        by blast
      have t1: "t < int (length (threadStats s1))" using t by (simp add: u(2))
      have ts1: "threadStats s1 ! nat t = ts1" using tn by (simp add: u(2))
      have c1: "0 \<le> curInterval (threadStats s1 ! nat t)" using u(4) ts1 by simp
      note led1 = ledger_append_empty [OF u(5,6)]
      show ?thesis
      proof (cases "o_err ob")
        case True
        from Stats_addSlowDown_inv [OF u(3) t(1) t1 c1]
        obtain s2 ts2 where a:
          "Stats_addSlowDown s1 t = Inr s2" "threadStats s2 = (threadStats s1)[nat t := ts2]"
          "barrier_inv s2 (lg @ out) (marks[nat t := curInterval ts1])"
          "curInterval ts2 = curInterval (threadStats s1 ! nat t)"
          "ledgerOps ts2 = ledgerOps (threadStats s1 ! nat t)"
          "ledgerSlowdowns ts2 = ledgerSlowdowns (threadStats s1 ! nat t) + 1"
          "sameConfig s1 s2"
          by blast
        let ?g2 = "if kind = Put then ?g1\<lparr>op_counter := op_counter ?g1 - 1\<rparr> else ?g1"
        let ?ex = "if errcnt + 1 > 2 then Some ErrLimit else None"
        have res: "worker_iter kind t ob errcnt (g, s, lg)
            = Some (Inr (?ex, errcnt + 1, (?g2, s2, lg @ out)))"
          using False nx objnum(1) bn(1) ix u(1) a(1) True
          by (simp add: worker_iter_def Let_def bindD_def)
        have th: "threadStats s2 = (threadStats s)[nat t := ts2]" by (simp add: a(2) u(2))
        have inv2: "barrier_inv s2 (lg @ out) (marks[nat t := curInterval ts2])"
          using a(3,4) ts1 by simp
        have sc: "sameConfig s s2" using u(7) a(7) by (simp add: sameConfig_def)
        show ?thesis
          using res th inv2 sc a(4,5,6) ts1 u(4) led1 cfg(2) e2 False
          by (intro exI [of _ ?ex] exI [of _ "errcnt + 1"] exI [of _ ?g2] exI [of _ s2]
                exI [of _ "lg @ out"] exI [of _ ts2]) auto
      next
        case ok: False
        from Stats_addOp_inv [OF u(3) t(1) t1 c1, of "object_size ?g1" "o_end ob - o_start ob"]
        obtain s2 ts2 where a:
          "Stats_addOp s1 t (object_size ?g1) (o_end ob - o_start ob) = Inr s2"
          "threadStats s2 = (threadStats s1)[nat t := ts2]"
          "barrier_inv s2 (lg @ out) (marks[nat t := curInterval ts1])"
          "curInterval ts2 = curInterval (threadStats s1 ! nat t)"
          "ledgerOps ts2 = ledgerOps (threadStats s1 ! nat t) + 1"
          "ledgerSlowdowns ts2 = ledgerSlowdowns (threadStats s1 ! nat t)"
          "sameConfig s1 s2"
          by blast
        have res: "worker_iter kind t ob errcnt (g, s, lg)
            = Some (Inr (None, errcnt, (?g1, s2, lg @ out)))"
          using False nx objnum(1) bn(1) ix u(1) a(1) ok e2
          by (simp add: worker_iter_def Let_def bindD_def)
        have th: "threadStats s2 = (threadStats s)[nat t := ts2]" by (simp add: a(2) u(2))
        have inv2: "barrier_inv s2 (lg @ out) (marks[nat t := curInterval ts2])"
          using a(3,4) ts1 by simp
        have sc: "sameConfig s s2" using u(7) a(7) by (simp add: sameConfig_def)
        show ?thesis
          using res th inv2 sc a(4,5,6) ts1 u(4) led1 cfg(2) e2 False
          by (intro exI [of _ None] exI [of _ errcnt] exI [of _ ?g1] exI [of _ s2]
                exI [of _ "lg @ out"] exI [of _ ts2]) auto
      qed
    qed
  qed
qed

lemma barrier_inv_finish:
  assumes inv: "barrier_inv s lg marks" and j0: "j0 < length (threadStats s)"
    and c: "curInterval ts' < 0"
    and l: "length (intervals ts') = length (intervals (threadStats s ! j0))"
  shows "barrier_inv (s\<lparr>threadStats := (threadStats s)[j0 := ts']\<rparr>) lg marks"
  unfolding barrier_inv_def
proof (intro conjI allI impI)
  let ?s1 = "s\<lparr>threadStats := (threadStats s)[j0 := ts']\<rparr>"
  from inv have lm: "length marks = length (threadStats s)" by (simp add: barrier_inv_def)
  fix j assume j: "j < length marks"
  show "0 \<le> marks ! j" using inv j by (simp add: barrier_inv_def)
  show "marks ! j < int (length (intervals (threadStats ?s1 ! j)))"
    using inv j lm l by (cases "j = j0") (simp_all add: barrier_inv_def)
  assume c0: "0 \<le> curInterval (threadStats ?s1 ! j)"
  show "marks ! j \<le> curInterval (threadStats ?s1 ! j)"
    using inv j lm c c0 by (cases "j = j0") (simp_all add: barrier_inv_def)
  show "int (length (intervals (threadStats ?s1 ! j))) = curInterval (threadStats ?s1 ! j) + 1"
    using inv j lm c c0 by (cases "j = j0") (simp_all add: barrier_inv_def)
qed (use inv in \<open>simp_all add: barrier_inv_def\<close>)

lemma barrier_inv_latch:
  "barrier_inv s lg marks \<Longrightarrow> barrier_inv (s\<lparr>completions := c\<rparr>) lg marks"
  "barrier_inv s lg marks \<Longrightarrow> barrier_inv (s\<lparr>completions := c, endNano := e\<rparr>) lg marks"
  by (simp_all add: barrier_inv_def)

lemma Stats_finish_inv:
  assumes inv: "barrier_inv s lg marks"
    and t: "0 \<le> t" "t < int (length (threadStats s))"
    and act: "marks ! nat t = curInterval (threadStats s ! nat t)"
  shows "\<exists>s' ts' out m. Stats_finish s t now now' = Some (Inr (s', out))
     \<and> threadStats s' = (threadStats s)[nat t := ts']
     \<and> curInterval ts' = - 1
     \<and> barrier_inv s' (lg @ out) (marks[nat t := m])
     \<and> ledgerOps ts' = ledgerOps (threadStats s ! nat t)
     \<and> ledgerSlowdowns ts' = ledgerSlowdowns (threadStats s ! nat t)
     \<and> completions s' = completions s + 1 \<and> threads s' = threads s"
proof -
  let ?ts = "threadStats s ! nat t"
  have tn: "nat t < length (threadStats s)" using t by simp
  from Stats_updateIntervals_inv [OF inv t act, of now]
  obtain s1 ts1 new out where u:
    "Stats_updateIntervals s t now = Some (Inr (s1, curInterval ts1, out))"
    "threadStats s1 = (threadStats s)[nat t := ts1]"
    "barrier_inv s1 (lg @ out) (marks[nat t := curInterval ts1])"
    "0 \<le> curInterval ts1"
    "intervals ts1 = intervals ?ts @ new"
    "\<forall>iv\<in>set new. latNano iv = [] \<and> slowdowns iv = 0 \<and> bytes iv = 0"
    "sameConfig s s1"
    by blast
  note led1 = ledger_append_empty [OF u(5,6)]
  have tn1: "nat t < length (threadStats s1)" using tn by (simp add: u(2))
  have ts1: "threadStats s1 ! nat t = ts1" using tn by (simp add: u(2))
  let ?tf = "ThreadStats_finish ts1"
  let ?s2 = "s1\<lparr>threadStats := (threadStats s1)[nat t := ?tf]\<rparr>"
  have inv2: "barrier_inv ?s2 (lg @ out) (marks[nat t := curInterval ts1])"
    by (rule barrier_inv_finish [OF u(3) tn1]) (simp_all add: ThreadStats_finish_def ts1)
  let ?s3 = "?s2\<lparr>completions := completions ?s2 + 1\<rparr>"
  let ?s' = "if completions ?s2 + 1 = threads ?s3 then ?s3\<lparr>endNano := now'\<rparr> else ?s3"
  have res: "Stats_finish s t now now' = Some (Inr (?s', out))"
    using t tn1 by (simp add: Stats_finish_def bindD_def u(1) Let_def u(2))
  have inv': "barrier_inv ?s' (lg @ out) (marks[nat t := curInterval ts1])"
    using barrier_inv_latch [OF inv2] by simp
  have th: "threadStats ?s' = (threadStats s)[nat t := ?tf]" by (simp add: u(2))
  have led: "ledgerOps ?tf = ledgerOps ?ts" "ledgerSlowdowns ?tf = ledgerSlowdowns ?ts"
    using led1 by (simp_all add: ThreadStats_finish_def ledgerOps_def ledgerSlowdowns_def)
  have cf: "completions ?s' = completions s + 1" "threads ?s' = threads s"
    using u(7) by (simp_all add: sameConfig_def)
  show ?thesis
    using res th inv' led cf
    by (intro exI [of _ ?s'] exI [of _ ?tf] exI [of _ out] exI [of _ "curInterval ts1"])
       (simp add: ThreadStats_finish_def)
qed

lemma config_ok_counters [simp]:
  "config_ok kind (g\<lparr>op_counter := a, running_threads := b\<rparr>) = config_ok kind g"
  by (simp add: config_ok_def)

lemma active_update:
  "k < length ws \<Longrightarrow>
   active (ws[k := w]) = active ws - (if l_exit (ws ! k) = None then 1 else 0)
                          + (if l_exit w = None then 1 else 0)"
  by (simp add: active_def sum_list_map_update)

lemma phase_step_inv:
  assumes old: "phase_inv kind g0 (ws, (g, s, lg))"
  shows "\<exists>ws' g' s' lg'. phase_step kind (t, ob) (ws, (g, s, lg)) = Some (Inr (ws', (g', s', lg')))
     \<and> phase_inv kind g0 (ws', (g', s', lg'))
     \<and> length ws' = length ws
     \<and> (\<forall>j < length ws. l_exit (ws ! j) \<noteq> None \<longrightarrow> l_exit (ws' ! j) \<noteq> None)
     \<and> (0 \<le> t \<and> t < int (length ws) \<and> duration_secs g0 > - 1 \<and> o_now ob > endtime g0
          \<longrightarrow> l_exit (ws' ! nat t) \<noteq> None)"
proof (cases "0 \<le> t \<and> t < int (length ws) \<and> l_exit (ws ! nat t) = None")
  case False
  then have "phase_step kind (t, ob) (ws, (g, s, lg)) = Some (Inr (ws, (g, s, lg)))"
    by (simp only: phase_step_def prod.case if_False)
  then show ?thesis using old False by auto
next
  case True
  then have t: "0 \<le> t" "t < int (length ws)" and run: "l_exit (ws ! nat t) = None" by simp_all
  have tw: "nat t < length ws" using t by simp
  note o = old [unfolded phase_inv_def prod.case]
  from o have g: "g = g0\<lparr>op_counter := op_counter g, running_threads := running_threads g\<rparr>"
    by blast
  from o have cfg0: "config_ok kind g0" and oc: "- 1 \<le> op_counter g"
    and len: "length ws = length (threadStats s)" "int (length ws) = threads s"
    and rt: "running_threads g = active ws"
    and cp: "completions s = int (length ws) - active ws"
    and put: "kind = Put \<and> object_count g0 < 0 \<longrightarrow>
        op_counter g + 1 = (\<Sum>ts\<leftarrow>threadStats s. ledgerOps ts)"
    by blast+
  from o obtain marks where marks: "barrier_inv s lg marks"
    "\<And>j. j < length ws \<Longrightarrow> l_exit (ws ! j) = None \<Longrightarrow> marks ! j = curInterval (threadStats s ! j)"
    by blast
  from o have per: "\<And>j. j < length ws \<Longrightarrow>
          l_errcnt (ws ! j) = ledgerSlowdowns (threadStats s ! j)
        \<and> l_errcnt (ws ! j) \<le> 3
        \<and> (l_exit (ws ! j) = None \<longrightarrow> l_errcnt (ws ! j) \<le> 2)
        \<and> (l_exit (ws ! j) = Some ErrLimit \<longleftrightarrow> l_errcnt (ws ! j) = 3)
        \<and> (l_exit (ws ! j) \<noteq> None \<longrightarrow> curInterval (threadStats s ! j) = - 1)"
    by blast
  let ?ts = "threadStats s ! nat t"
  let ?e = "l_errcnt (ws ! nat t)"
  have ts: "t < int (length (threadStats s))" using t len by simp
  have tn: "nat t < length (threadStats s)" using tw len by simp
  have act: "marks ! nat t = curInterval ?ts" using marks(2) [OF tw run] .
  have cfg: "config_ok kind g" by (subst g) (simp add: cfg0)
  have e2: "?e \<le> 2" using per [OF tw] run by simp
  have e0: "?e = ledgerSlowdowns ?ts" using per [OF tw] by simp
  have gfields: "duration_secs g = duration_secs g0" "endtime g = endtime g0"
    "object_count g = object_count g0"
    by (subst g, simp)+
  from worker_iter_inv [OF marks(1) t(1) ts act cfg oc e2, of ob]
  obtain ex errcnt' g' s' lg' ts' where it:
    "worker_iter kind t ob ?e (g, s, lg) = Some (Inr (ex, errcnt', (g', s', lg')))"
    "threadStats s' = (threadStats s)[nat t := ts']"
    "barrier_inv s' lg' (marks[nat t := curInterval ts'])"
    "0 \<le> curInterval ts'"
    "sameConfig s s'"
    "g' = g\<lparr>op_counter := op_counter g'\<rparr>" "- 1 \<le> op_counter g'"
    "errcnt' - ?e = ledgerSlowdowns ts' - ledgerSlowdowns ?ts"
    "?e \<le> errcnt'" "errcnt' \<le> ?e + 1"
    "ex = Some ErrLimit \<longleftrightarrow> 2 < errcnt'"
    "ex = None \<longrightarrow> errcnt' \<le> 2"
    "kind = Put \<and> object_count g < 0 \<longrightarrow>
          op_counter g' - op_counter g = ledgerOps ts' - ledgerOps ?ts"
    "duration_secs g > - 1 \<and> o_now ob > endtime g \<longrightarrow> ex \<noteq> None"
    by blast
  have g': "g' = g0\<lparr>op_counter := op_counter g', running_threads := running_threads g\<rparr>"
    by (subst it(6), subst g) simp
  have rt': "running_threads g' = running_threads g" by (subst it(6)) simp
  have ec: "errcnt' = ledgerSlowdowns ts'" using it(8) e0 by simp
  have sumops: "(\<Sum>ts\<leftarrow>(threadStats s)[nat t := ts']. ledgerOps ts)
      = (\<Sum>ts\<leftarrow>threadStats s. ledgerOps ts) - ledgerOps ?ts + ledgerOps ts'"
    using tn by (rule sum_list_map_update)
  show ?thesis
  proof (cases ex)
    case None
    let ?ws' = "ws[nat t := \<lparr>l_errcnt = errcnt', l_exit = None\<rparr>]"
    let ?marks' = "marks[nat t := curInterval ts']"
    have res: "phase_step kind (t, ob) (ws, (g, s, lg)) = Some (Inr (?ws', (g', s', lg')))"
      using True it(1) None by (simp add: phase_step_def bindD_def)
    have lm: "length marks = length (threadStats s)" using marks(1) by (simp add: barrier_inv_def)
    have m': "\<forall>j < length ?ws'. l_exit (?ws' ! j) = None \<longrightarrow> ?marks' ! j = curInterval (threadStats s' ! j)"
      using marks(2) tw lm len by (auto simp: it(2) nth_list_update)
    have per': "\<forall>j < length ?ws'.
          l_errcnt (?ws' ! j) = ledgerSlowdowns (threadStats s' ! j)
        \<and> l_errcnt (?ws' ! j) \<le> 3
        \<and> (l_exit (?ws' ! j) = None \<longrightarrow> l_errcnt (?ws' ! j) \<le> 2)
        \<and> (l_exit (?ws' ! j) = Some ErrLimit \<longleftrightarrow> l_errcnt (?ws' ! j) = 3)
        \<and> (l_exit (?ws' ! j) \<noteq> None \<longrightarrow> curInterval (threadStats s' ! j) = - 1)"
    proof (intro allI impI)
      fix j assume j: "j < length ?ws'"
      show "l_errcnt (?ws' ! j) = ledgerSlowdowns (threadStats s' ! j)
        \<and> l_errcnt (?ws' ! j) \<le> 3
        \<and> (l_exit (?ws' ! j) = None \<longrightarrow> l_errcnt (?ws' ! j) \<le> 2)
        \<and> (l_exit (?ws' ! j) = Some ErrLimit \<longleftrightarrow> l_errcnt (?ws' ! j) = 3)
        \<and> (l_exit (?ws' ! j) \<noteq> None \<longrightarrow> curInterval (threadStats s' ! j) = - 1)"
      proof (cases "j = nat t")
        case True
        then show ?thesis using tw tn ec it(12) None by (simp add: it(2))
      next
        case False
        then show ?thesis using per [of j] j by (auto simp: it(2))
      qed
    qed
    have act': "active ?ws' = active ws" using tw run by (simp add: active_update)
    have put': "kind = Put \<and> object_count g0 < 0 \<longrightarrow>
        op_counter g' + 1 = (\<Sum>ts\<leftarrow>threadStats s'. ledgerOps ts)"
      using put it(13) gfields(3) by (auto simp: it(2) sumops)
    have "phase_inv kind g0 (?ws', (g', s', lg'))"
      unfolding phase_inv_def prod.case
    proof (intro conjI)
      show "g' = g0\<lparr>op_counter := op_counter g', running_threads := running_threads g'\<rparr>"
        using g' rt' by simp
      show "\<exists>marks. barrier_inv s' lg' marks
        \<and> (\<forall>j < length ?ws'. l_exit (?ws' ! j) = None \<longrightarrow> marks ! j = curInterval (threadStats s' ! j))"
        using it(3) m' by blast
      show "completions s' = int (length ?ws') - active ?ws'"
        using cp act' it(5) by (simp add: sameConfig_def)
      show "running_threads g' = active ?ws'" using rt rt' act' by simp
      show "config_ok kind g0" by (rule cfg0)
      show "- 1 \<le> op_counter g'" by (rule it(7))
      show "length ?ws' = length (threadStats s')" using len by (simp add: it(2))
      show "int (length ?ws') = threads s'" using len it(5) by (simp add: sameConfig_def)
      show "\<forall>j < length ?ws'.
          l_errcnt (?ws' ! j) = ledgerSlowdowns (threadStats s' ! j)
        \<and> l_errcnt (?ws' ! j) \<le> 3
        \<and> (l_exit (?ws' ! j) = None \<longrightarrow> l_errcnt (?ws' ! j) \<le> 2)
        \<and> (l_exit (?ws' ! j) = Some ErrLimit \<longleftrightarrow> l_errcnt (?ws' ! j) = 3)
        \<and> (l_exit (?ws' ! j) \<noteq> None \<longrightarrow> curInterval (threadStats s' ! j) = - 1)"
        by (rule per')
      show "kind = Put \<and> object_count g0 < 0 \<longrightarrow>
        op_counter g' + 1 = (\<Sum>ts\<leftarrow>threadStats s'. ledgerOps ts)"
        by (rule put')
    qed
    then show ?thesis
      using res tw run it(14) None gfields by (auto simp: nth_list_update)
  next
    case (Some r)
    have ts1: "t < int (length (threadStats s'))" using ts by (simp add: it(2))
    have act1: "(marks[nat t := curInterval ts']) ! nat t = curInterval (threadStats s' ! nat t)"
      using tn marks(1) by (simp add: it(2) barrier_inv_def)
    from Stats_finish_inv [OF it(3) t(1) ts1 act1, of "o_fin ob" "o_latch ob"]
    obtain s2 ts2 out m where f:
      "Stats_finish s' t (o_fin ob) (o_latch ob) = Some (Inr (s2, out))"
      "threadStats s2 = (threadStats s')[nat t := ts2]"
      "curInterval ts2 = - 1"
      "barrier_inv s2 (lg' @ out) ((marks[nat t := curInterval ts'])[nat t := m])"
      "ledgerOps ts2 = ledgerOps (threadStats s' ! nat t)"
      "ledgerSlowdowns ts2 = ledgerSlowdowns (threadStats s' ! nat t)"
      "completions s2 = completions s' + 1" "threads s2 = threads s'"
      by blast
    have tsn: "threadStats s' ! nat t = ts'" using tn by (simp add: it(2))
    have th2: "threadStats s2 = (threadStats s)[nat t := ts2]" by (simp add: f(2) it(2))
    let ?ws' = "ws[nat t := \<lparr>l_errcnt = errcnt', l_exit = Some r\<rparr>]"
    let ?g2 = "g'\<lparr>running_threads := running_threads g' - 1\<rparr>"
    let ?marks' = "marks[nat t := m]"
    have res: "phase_step kind (t, ob) (ws, (g, s, lg)) = Some (Inr (?ws', (?g2, s2, lg' @ out)))"
      using True it(1) Some f(1) by (simp add: phase_step_def bindD_def worker_exit_def)
    have lm: "length marks = length (threadStats s)" using marks(1) by (simp add: barrier_inv_def)
    have inv2: "barrier_inv s2 (lg' @ out) ?marks'" using f(4) by simp
    have m': "\<forall>j < length ?ws'. l_exit (?ws' ! j) = None \<longrightarrow> ?marks' ! j = curInterval (threadStats s2 ! j)"
      using marks(2) tw lm len by (auto simp: th2 nth_list_update)
    have e3: "errcnt' \<le> 3" using it(10) e2 by simp
    have per': "\<forall>j < length ?ws'.
          l_errcnt (?ws' ! j) = ledgerSlowdowns (threadStats s2 ! j)
        \<and> l_errcnt (?ws' ! j) \<le> 3
        \<and> (l_exit (?ws' ! j) = None \<longrightarrow> l_errcnt (?ws' ! j) \<le> 2)
        \<and> (l_exit (?ws' ! j) = Some ErrLimit \<longleftrightarrow> l_errcnt (?ws' ! j) = 3)
        \<and> (l_exit (?ws' ! j) \<noteq> None \<longrightarrow> curInterval (threadStats s2 ! j) = - 1)"
    proof (intro allI impI)
      fix j assume j: "j < length ?ws'"
      show "l_errcnt (?ws' ! j) = ledgerSlowdowns (threadStats s2 ! j)
        \<and> l_errcnt (?ws' ! j) \<le> 3
        \<and> (l_exit (?ws' ! j) = None \<longrightarrow> l_errcnt (?ws' ! j) \<le> 2)
        \<and> (l_exit (?ws' ! j) = Some ErrLimit \<longleftrightarrow> l_errcnt (?ws' ! j) = 3)
        \<and> (l_exit (?ws' ! j) \<noteq> None \<longrightarrow> curInterval (threadStats s2 ! j) = - 1)"
      proof (cases "j = nat t")
        case True
        then show ?thesis
          using tw tn ec e3 it(11) Some f(3,6) tsn by (auto simp: th2)
      next
        case False
        then show ?thesis using per [of j] j by (auto simp: th2)
      qed
    qed
    have act': "active ?ws' = active ws - 1" using tw run by (simp add: active_update)
    have sumops2: "(\<Sum>ts\<leftarrow>(threadStats s)[nat t := ts2]. ledgerOps ts)
      = (\<Sum>ts\<leftarrow>threadStats s. ledgerOps ts) - ledgerOps ?ts + ledgerOps ts2"
      using tn by (rule sum_list_map_update)
    have put': "kind = Put \<and> object_count g0 < 0 \<longrightarrow>
        op_counter ?g2 + 1 = (\<Sum>ts\<leftarrow>threadStats s2. ledgerOps ts)"
      using put it(13) gfields(3) f(5) tsn by (auto simp: th2 sumops2)
    have "phase_inv kind g0 (?ws', (?g2, s2, lg' @ out))"
      unfolding phase_inv_def prod.case
    proof (intro conjI)
      show "?g2 = g0\<lparr>op_counter := op_counter ?g2, running_threads := running_threads ?g2\<rparr>"
        by (subst g') simp
      show "\<exists>marks. barrier_inv s2 (lg' @ out) marks
        \<and> (\<forall>j < length ?ws'. l_exit (?ws' ! j) = None \<longrightarrow> marks ! j = curInterval (threadStats s2 ! j))"
        using inv2 m' by blast
      show "completions s2 = int (length ?ws') - active ?ws'"
        using cp act' it(5) f(7) by (simp add: sameConfig_def)
      show "running_threads ?g2 = active ?ws'" using rt rt' act' by simp
      show "int (length ?ws') = threads s2" using len it(5) f(8) by (simp add: sameConfig_def)
      show "config_ok kind g0" by (rule cfg0)
      show "- 1 \<le> op_counter ?g2" using it(7) by simp
      show "length ?ws' = length (threadStats s2)" using len by (simp add: th2)
      show "\<forall>j < length ?ws'.
          l_errcnt (?ws' ! j) = ledgerSlowdowns (threadStats s2 ! j)
        \<and> l_errcnt (?ws' ! j) \<le> 3
        \<and> (l_exit (?ws' ! j) = None \<longrightarrow> l_errcnt (?ws' ! j) \<le> 2)
        \<and> (l_exit (?ws' ! j) = Some ErrLimit \<longleftrightarrow> l_errcnt (?ws' ! j) = 3)
        \<and> (l_exit (?ws' ! j) \<noteq> None \<longrightarrow> curInterval (threadStats s2 ! j) = - 1)"
        by (rule per')
      show "kind = Put \<and> object_count g0 < 0 \<longrightarrow>
        op_counter ?g2 + 1 = (\<Sum>ts\<leftarrow>threadStats s2. ledgerOps ts)"
        by (rule put')
    qed
    then show ?thesis
      using res tw run by (auto simp: nth_list_update)
  qed
qed

subsection \<open>Phases and runWrapper\<close>

lemma runPhase_inv:
  assumes "phase_inv kind g0 (ws, (g, s, lg))"
  shows "\<exists>ws' g' s' lg'. runPhase kind sched (ws, (g, s, lg)) = Some (Inr (ws', (g', s', lg')))
     \<and> phase_inv kind g0 (ws', (g', s', lg'))
     \<and> length ws' = length ws
     \<and> (\<forall>j < length ws. l_exit (ws ! j) \<noteq> None \<longrightarrow> l_exit (ws' ! j) \<noteq> None)
     \<and> (\<forall>t ob. (t, ob) \<in> set sched \<and> 0 \<le> t \<and> t < int (length ws)
            \<and> duration_secs g0 > - 1 \<and> o_now ob > endtime g0
          \<longrightarrow> l_exit (ws' ! nat t) \<noteq> None)"
  using assms
proof (induction sched arbitrary: ws g s lg)
  case Nil
  then show ?case by (simp add: runPhase_def)
next
  case (Cons st sched)
  obtain t ob where st: "st = (t, ob)" by (cases st)
  from phase_step_inv [OF Cons.prems, of t ob]
  obtain ws1 g1 s1 lg1 where 1:
    "phase_step kind (t, ob) (ws, (g, s, lg)) = Some (Inr (ws1, (g1, s1, lg1)))"
    "phase_inv kind g0 (ws1, (g1, s1, lg1))"
    "length ws1 = length ws"
    "\<forall>j < length ws. l_exit (ws ! j) \<noteq> None \<longrightarrow> l_exit (ws1 ! j) \<noteq> None"
    "0 \<le> t \<and> t < int (length ws) \<and> duration_secs g0 > - 1 \<and> o_now ob > endtime g0
          \<longrightarrow> l_exit (ws1 ! nat t) \<noteq> None"
    by blast
  from Cons.IH [OF 1(2)]
  obtain ws' g' s' lg' where 2:
    "runPhase kind sched (ws1, (g1, s1, lg1)) = Some (Inr (ws', (g', s', lg')))"
    "phase_inv kind g0 (ws', (g', s', lg'))"
    "length ws' = length ws1"
    "\<forall>j < length ws1. l_exit (ws1 ! j) \<noteq> None \<longrightarrow> l_exit (ws' ! j) \<noteq> None"
    "\<forall>t ob. (t, ob) \<in> set sched \<and> 0 \<le> t \<and> t < int (length ws1)
            \<and> duration_secs g0 > - 1 \<and> o_now ob > endtime g0
          \<longrightarrow> l_exit (ws' ! nat t) \<noteq> None"
    by blast
  have res: "runPhase kind (st # sched) (ws, (g, s, lg)) = Some (Inr (ws', (g', s', lg')))"
    using 1(1) 2(1) by (simp add: runPhase_def st bindD_def)
  have mono: "\<forall>j < length ws. l_exit (ws ! j) \<noteq> None \<longrightarrow> l_exit (ws' ! j) \<noteq> None"
    using 1(3,4) 2(4) by auto
  have exp: "\<forall>t' ob'. (t', ob') \<in> set (st # sched) \<and> 0 \<le> t' \<and> t' < int (length ws)
            \<and> duration_secs g0 > - 1 \<and> o_now ob' > endtime g0
          \<longrightarrow> l_exit (ws' ! nat t') \<noteq> None"
  proof (intro allI impI)
    fix t' ob'
    assume a: "(t', ob') \<in> set (st # sched) \<and> 0 \<le> t' \<and> t' < int (length ws)
            \<and> duration_secs g0 > - 1 \<and> o_now ob' > endtime g0"
    show "l_exit (ws' ! nat t') \<noteq> None"
    proof (cases "(t', ob') = st")
      case True
      then have "l_exit (ws1 ! nat t') \<noteq> None" using a 1(5) st by simp
      moreover have "nat t' < length ws1" using a 1(3) by linarith
      ultimately show ?thesis using 2(4) by blast
    next
      case False
      then have "(t', ob') \<in> set sched" using a by simp
      then have "(t', ob') \<in> set sched \<and> 0 \<le> t' \<and> t' < int (length ws1)
            \<and> duration_secs g0 > - 1 \<and> o_now ob' > endtime g0"
        using a 1(3) by simp
      then show ?thesis using 2(5) by blast
    qed
  qed
  show ?case using res 2(2) 2(3) 1(3) mono exp by (intro exI conjI) simp_all
qed

lemma active_replicate: "active (replicate k \<lparr>l_errcnt = 0, l_exit = None\<rparr>) = int k"
  by (induction k) (simp_all add: active_def)

lemma sum_list_zero: "(\<forall>x\<in>set xs. f x = (0::int)) \<Longrightarrow> (\<Sum>x\<leftarrow>xs. f x) = 0"
  by (induction xs) simp_all

lemma phase_inv_initial:
  assumes "0 < w" "0 < n" "config_ok kind g" "op_counter g = - 1" "running_threads g = n"
  shows "\<exists>s0 lg0. makeStats lp md n w now0 clk = Some (Inr (s0, lg0))
     \<and> phase_inv kind g (replicate (nat n) \<lparr>l_errcnt = 0, l_exit = None\<rparr>, (g, s0, lg0))
     \<and> threads s0 = n \<and> startNano s0 = now0"
proof -
  from makeStats_inv [OF assms(1,2), of lp md now0 clk]
  obtain s0 lg0 where s0: "makeStats lp md n w now0 clk = Some (Inr (s0, lg0))"
    "barrier_inv s0 lg0 (map curInterval (threadStats s0))"
    "int (length (threadStats s0)) = n" "threads s0 = n" "completions s0 = 0"
    "startNano s0 = now0"
    "\<forall>ts\<in>set (threadStats s0). ledgerOps ts = 0 \<and> ledgerSlowdowns ts = 0"
    by blast
  let ?ws = "replicate (nat n) \<lparr>l_errcnt = 0, l_exit = None\<rparr>"
  have ln: "length (threadStats s0) = nat n" using s0(3) by simp
  have "phase_inv kind g (?ws, (g, s0, lg0))"
    unfolding phase_inv_def prod.case
  proof (intro conjI)
    show "\<exists>marks. barrier_inv s0 lg0 marks
        \<and> (\<forall>j < length ?ws. l_exit (?ws ! j) = None \<longrightarrow> marks ! j = curInterval (threadStats s0 ! j))"
      using s0(2) ln by (intro exI [of _ "map curInterval (threadStats s0)"]) simp
    show "\<forall>j < length ?ws.
          l_errcnt (?ws ! j) = ledgerSlowdowns (threadStats s0 ! j)
        \<and> l_errcnt (?ws ! j) \<le> 3
        \<and> (l_exit (?ws ! j) = None \<longrightarrow> l_errcnt (?ws ! j) \<le> 2)
        \<and> (l_exit (?ws ! j) = Some ErrLimit \<longleftrightarrow> l_errcnt (?ws ! j) = 3)
        \<and> (l_exit (?ws ! j) \<noteq> None \<longrightarrow> curInterval (threadStats s0 ! j) = - 1)"
      using s0(7) ln by simp
    show "kind = Put \<and> object_count g < 0 \<longrightarrow>
        op_counter g + 1 = (\<Sum>ts\<leftarrow>threadStats s0. ledgerOps ts)"
      using s0(7) assms(4) by (simp add: sum_list_zero)
    show "completions s0 = int (length ?ws) - active ?ws"
      using s0(5) by (simp add: active_replicate)
    show "running_threads g = active ?ws" using assms(2,5) by (simp add: active_replicate)
    show "int (length ?ws) = threads s0" using s0(4) assms(2) by simp
  qed (use assms ln in simp_all)
  then show ?thesis using s0(1,4,6) by blast
qed


lemmas run_defs = runPhase_def phase_step_def example_op_def example_stop_def example_globals_def
      example_stats_def
      worker_iter_def worker_exit_def Stats_updateIntervals_def ThreadStats_updateIntervals_def
      updateIntervals_loop.simps Stats_addSlowDown_def Stats_addOp_def Stats_finish_def
      ThreadStats_finish_def makeThreadStats_def go_rem_def index_def bindD_def Let_def



lemma member_le_sum_list_int:
  "(\<forall>x\<in>set xs. (0::int) \<le> x) \<Longrightarrow> m \<in> set xs \<Longrightarrow> m \<le> sum_list xs"
proof (induction xs)
  case Nil
  then show ?case by simp
next
  case (Cons a xs)
  have "0 \<le> sum_list xs" using Cons.prems(1) by (intro sum_list_nonneg) simp
  then show ?case using Cons by auto
qed

lemma passedBy_none: "(\<forall>m\<in>set marks. m \<le> i) \<Longrightarrow> passedBy marks i = 0"
  by (induction marks) simp_all

lemma Stats_makeOutputStats_cases:
  assumes inv: "barrier_inv s lg marks" and thr: "threads s = int (length (threadStats s))"
    and i0: "0 \<le> i"
  shows "(\<exists>os. Stats_makeOutputStats s i = Inr (os, True) \<and> i < sum_list marks)
       \<or> Stats_makeOutputStats s i = Inr (OutputStats_zero, False)"
proof (cases "passedBy marks i = threads s")
  case True
  from inv have w: "0 < stats_intervalNano s" and n: "0 < threads s"
    and lm: "length marks = length (threadStats s)"
    and per: "\<And>j. j < length marks \<Longrightarrow> 0 \<le> marks ! j
         \<and> marks ! j < int (length (intervals (threadStats s ! j)))"
    and cmap: "\<And>i. intervalCompletions s i =
         (if 0 \<le> i \<and> 0 < passedBy marks i then Some (passedBy marks i) else None)"
    by (simp_all add: barrier_inv_def)
  have full: "passedBy marks i = int (length marks)" using True thr lm by simp
  then have all: "\<forall>m\<in>set marks. i < m" by (simp only: passedBy_full)
  have "\<forall>ts\<in>set (threadStats s). 0 \<le> i \<and> i < int (length (intervals ts))"
  proof
    fix ts assume "ts \<in> set (threadStats s)"
    then obtain j where j: "j < length (threadStats s)" "ts = threadStats s ! j"
      by (auto simp: in_set_conv_nth)
    then have jl: "j < length marks" using lm by simp
    then have "marks ! j \<in> set marks" by (rule nth_mem)
    then have "i < marks ! j" using all by blast
    then show "0 \<le> i \<and> i < int (length (intervals ts))"
      using per [OF jl] j i0 by simp
  qed
  from Stats_intervalRecord_ok [OF thr this] obtain r where r: "Stats_intervalRecord s i = Inr r"
    by blast
  obtain os where os: "IntervalStats_makeOutputStats r = Inr os"
    using makeOutputStats_total by blast
  have mk: "Stats_makeOutputStats s i = Inr (os, True)"
    using w i0 True n r os by (simp add: Stats_makeOutputStats_def cmap)
  have ne: "marks \<noteq> []" using n thr lm by auto
  then obtain m where m: "m \<in> set marks" by (cases marks) auto
  have nonneg: "\<forall>x\<in>set marks. 0 \<le> x"
    using per by (auto simp: in_set_conv_nth)
  have "i < m" using all m by blast
  also have "m \<le> sum_list marks" by (rule member_le_sum_list_int [OF nonneg m])
  finally show ?thesis using mk by blast
next
  case False
  from inv have lm: "length marks = length (threadStats s)"
    and cmap: "\<And>i. intervalCompletions s i =
         (if 0 \<le> i \<and> 0 < passedBy marks i then Some (passedBy marks i) else None)"
    by (simp_all add: barrier_inv_def)
  have "passedBy marks i \<le> int (length marks)" by (rule passedBy_bounds)
  then have "passedBy marks i < threads s" using False thr lm by simp
  then have "Stats_makeOutputStats s i = Inr (OutputStats_zero, False)"
    by (simp add: Stats_makeOutputStats_def cmap)
  then show ?thesis by blast
qed

lemma drain_returns:
  assumes inv: "barrier_inv s lg marks" and thr: "threads s = int (length (threadStats s))"
  shows "\<exists>os'. drain s i os = Some (Inr os')"
proof (induction "nat (sum_list marks - i)" arbitrary: i os rule: less_induct)
  case less
  show ?case
  proof (cases "0 \<le> i")
    case False
    then show ?thesis by (subst drain.simps) simp
  next
    case True
    from Stats_makeOutputStats_cases [OF inv thr True]
    show ?thesis
    proof
      assume "\<exists>o1. Stats_makeOutputStats s i = Inr (o1, True) \<and> i < sum_list marks"
      then obtain o1 where o1: "Stats_makeOutputStats s i = Inr (o1, True)" "i < sum_list marks"
        by blast
      have "nat (sum_list marks - (i + 1)) < nat (sum_list marks - i)" using o1(2) by simp
      from less [OF this] obtain os' where "drain s (i + 1) (os @ [o1]) = Some (Inr os')" by blast
      then show ?thesis using True o1(1) by (subst drain.simps) simp
    next
      assume "Stats_makeOutputStats s i = Inr (OutputStats_zero, False)"
      then show ?thesis using True by (subst drain.simps) simp
    qed
  qed
qed

lemma ledgerOps_total:
  "(\<Sum>ts\<leftarrow>tss. \<Sum>iv\<leftarrow>intervals ts. int (length (latNano iv))) = (\<Sum>ts\<leftarrow>tss. ledgerOps ts)"
  by (simp add: ledgerOps_def)

lemma Stats_makeTotalStats_ready:
  assumes "threads s = int (length (threadStats s))" and "gt \<le> completions s"
  shows "\<exists>ot. Stats_makeTotalStats gt s = Inr (ot, True) \<and> IntervalName ot = ''TOTAL''
     \<and> Ops ot = (\<Sum>ts\<leftarrow>threadStats s. ledgerOps ts)"
proof -
  let ?ist = "\<lparr>loop = stats_loop s, name = ''TOTAL'', mode = stats_mode s,
     bytes = (\<Sum>iv\<leftarrow>concat (map intervals (threadStats s)). bytes iv),
     slowdowns = (\<Sum>iv\<leftarrow>concat (map intervals (threadStats s)). slowdowns iv),
     intervalNano = endNano s - startNano s,
     latNano = sort (concat (map latNano (concat (map intervals (threadStats s)))))\<rparr>"
  have rec: "Stats_totalRecord s = Inr ?ist"
    by (rule Stats_totalRecord_eq [OF assms(1)])
  obtain ot where ot: "IntervalStats_makeOutputStats ?ist = Inr ot"
    using makeOutputStats_total by blast
  have tot: "Stats_makeTotalStats gt s = Inr (ot, True)"
    using assms(2) by (simp add: Stats_makeTotalStats_def rec ot)
  have len: "int (length (latNano ?ist)) = (\<Sum>ts\<leftarrow>threadStats s. ledgerOps ts)"
    by (simp add: length_concat_int sum_list_concat_map [symmetric] comp_def ledgerOps_def)
  note r = makeOutputStats_rates [OF ot]
  show ?thesis using tot r(4,6) len by simp
qed

lemma active_zero: "(\<forall>w\<in>set ws. l_exit w \<noteq> None) \<Longrightarrow> active ws = 0"
  by (induction ws) (simp_all add: active_def)

lemma runWrapper_begin_fields:
  "op_counter (runWrapper_begin kind now g) = - 1"
  "running_threads (runWrapper_begin kind now g) = num_threads g"
  "num_threads (runWrapper_begin kind now g) = num_threads g"
  "duration_secs (runWrapper_begin kind now g) = duration_secs g"
  "endtime (runWrapper_begin kind now g) = now + 1000000000 * duration_secs g"
  "interval (runWrapper_begin kind now g) = interval g"
  "config_ok kind g \<Longrightarrow> config_ok kind (runWrapper_begin kind now g)"
  "kind = Put \<Longrightarrow> object_count g < 0 \<or> object_count_flag g \<Longrightarrow>
     object_count (runWrapper_begin kind now g) < 0"
  "kind \<noteq> Put \<Longrightarrow> object_count (runWrapper_begin kind now g) = object_count g
     \<and> object_count_flag (runWrapper_begin kind now g) = object_count_flag g"
  by (auto simp: runWrapper_begin_def Let_def config_ok_def)




end
